theory Spec2Isabelle
  imports Main "HOL-Library.Product_Lexorder"
begin

section \<open>Data model\<close>

text \<open>
  The type tag of a project, section or item: the strings \<^verbatim>\<open>'parallel'\<close>,
  \<^verbatim>\<open>'sequential'\<close>, \<^verbatim>\<open>'p-s'\<close> and \<^verbatim>\<open>'s-p'\<close> of the source; Python's
  \<^verbatim>\<open>None\<close> is \<open>None\<close> of \<open>ty option\<close>.
\<close>

datatype ty = Parallel | Sequential | P_S | S_P

datatype error = IndexError | RecursionError | NameError | TypeError | AttributeError

text \<open>The command-line arguments the engine reads (\<^verbatim>\<open>args.end\<close> is \<open>end_arg\<close>).\<close>

record args =
  regeneration :: "int option"
  end_arg :: "int option"
  pp_suffix :: string
  ss_suffix :: string
  ps_suffix :: string
  sp_suffix :: string
  dateformat :: string
  hide_future :: int
  inbox :: "ty option"

section \<open>Type classifier\<close>

text \<open>Python's slice \<^verbatim>\<open>name[-n:]\<close> for \<open>n \<ge> 0\<close>: \<^verbatim>\<open>name[-0:]\<close> is the whole string.\<close>

definition py_suffix :: "nat \<Rightarrow> string \<Rightarrow> string" where
  "py_suffix n name = (if n = 0 then name else drop (length name - n) name)"

definition check_name :: "args \<Rightarrow> string \<Rightarrow> ty option" where
  "check_name a name =
     (let len_suffix = [length (pp_suffix a), length (ss_suffix a),
                        length (ps_suffix a), length (sp_suffix a)]
      in if name = ''Inbox'' then inbox a
         else if py_suffix (len_suffix ! 0) name = pp_suffix a then Some Parallel
         else if py_suffix (len_suffix ! 1) name = ss_suffix a then Some Sequential
         else if py_suffix (len_suffix ! 1) name = ps_suffix a then Some P_S
         else if py_suffix (len_suffix ! 1) name = sp_suffix a then Some S_P
         else if ps_suffix a = ''/-'' \<and> py_suffix 2 name = ''_-'' then Some P_S
         else if sp_suffix a = ''-/'' \<and> py_suffix 2 name = ''-_'' then Some S_P
         else if pp_suffix a = ''//'' \<and> py_suffix 1 name = ''_'' then Some Parallel
         else None)"

text \<open>
  \<^verbatim>\<open>str.strip()\<close>: leading and trailing whitespace is dropped. A \<open>char\<close> stands for a
  code point below 256; the whitespace of Python among these is tab to carriage return,
  the four separators \<open>0x1c\<close> to \<open>0x1f\<close>, the space, \<open>0x85\<close> and \<open>0xa0\<close>.
\<close>

definition is_space :: "char \<Rightarrow> bool" where
  "is_space c =
     (let n = (of_char c :: nat)
      in (9 \<le> n \<and> n \<le> 13) \<or> (28 \<le> n \<and> n \<le> 32) \<or> n = 133 \<or> n = 160)"

definition strip :: "string \<Rightarrow> string" where
  "strip s = rev (dropWhile is_space (rev (dropWhile is_space s)))"

text \<open>
  \<^verbatim>\<open>get_type\<close> reads \<^verbatim>\<open>object.name\<close> of a project or section and \<^verbatim>\<open>object.content\<close> of an
  item; here it takes that title.
\<close>

definition get_type :: "args \<Rightarrow> string \<Rightarrow> ty option" where
  "get_type a title = check_name a (strip title)"

section \<open>Items, sections, projects\<close>

text \<open>
  The objects are those of the client library (\<^verbatim>\<open>todoist_api_python\<close>): plain data objects
  with the fields below. They have no \<^verbatim>\<open>update\<close> method, no \<^verbatim>\<open>data\<close>, \<^verbatim>\<open>date_old\<close> or
  \<^verbatim>\<open>r_tag\<close> attribute, and support no subscripts: \<^verbatim>\<open>level.update(...)\<close>, \<^verbatim>\<open>item.data\<close>
  and \<^verbatim>\<open>item.date_old\<close> raise \<^verbatim>\<open>AttributeError\<close>, \<^verbatim>\<open>item['r_tag']\<close> raises \<^verbatim>\<open>TypeError\<close>.
  Identifiers are the decimal strings of the service, kept as the numbers they denote; a
  due date is the ordinal of its day.
\<close>

record due_info =
  date :: int
  is_recurring :: bool

record item =
  i_id :: nat
  parent_id :: "nat option"
  section_id :: "nat option"
  project_id :: nat
  content :: string
  i_order :: int
  is_completed :: bool
  due :: "due_info option"
  labels :: "string list"

record todo_section =
  s_id :: "nat option"
  s_name :: string
  s_project_id :: nat

record project =
  p_id :: nat
  p_name :: string

text \<open>
  What the engine takes from its surroundings: the clock (\<^verbatim>\<open>datetime.today()\<close>, in
  microseconds since the midnight that starts ordinal day 0), \<^verbatim>\<open>datetime.strptime\<close>
  (string, then format; the result in the same unit, \<open>None\<close> for \<^verbatim>\<open>ValueError\<close>),
  the builtin \<^verbatim>\<open>int\<close> on strings, and the number of nested calls the interpreter still
  allows when the engine asks for an item's type.
\<close>

record env =
  now :: int
  strptime :: "string \<Rightarrow> string \<Rightarrow> int option"
  int_of_str :: "string \<Rightarrow> int option"
  recursion_limit :: nat

definition DAY :: int where
  "DAY = 86400000000"

text \<open>
  The state of one pass. \<open>tasks\<close>, \<open>sections\<close> and \<open>projects\<close> are the fetched objects,
  addressed by their position. \<open>overview_item_labels\<close> maps an item id to the position of
  the task whose label list the dictionary entry references (the source stores the list
  object itself). \<open>td\<close> is the local variable of that name, which survives from one loop
  iteration to the next.
\<close>

record state =
  tasks :: "item list"
  sections :: "todo_section list"
  projects :: "project list"
  overview_item_ids :: "nat \<rightharpoonup> int"
  overview_item_labels :: "nat \<rightharpoonup> nat"
  td :: "int option"

definition get_project_type :: "args \<Rightarrow> project \<Rightarrow> ty option" where
  "get_project_type a project_object = get_type a (p_name project_object)"

fun get_section_type :: "args \<Rightarrow> todo_section option \<Rightarrow> ty option" where
  "get_section_type a (Some section_object) = get_type a (s_name section_object)"
| "get_section_type a None = None"

text \<open>
  \<^verbatim>\<open>get_item_type\<close> calls itself on the parent inside \<^verbatim>\<open>try ... except: pass\<close>. The first
  argument is the number of nested calls still allowed: at 0 the call raises
  \<^verbatim>\<open>RecursionError\<close>, which the caller's handler swallows, as it swallows the
  \<^verbatim>\<open>IndexError\<close> of a parent that is not in \<open>items\<close>.
\<close>

fun get_item_type :: "nat \<Rightarrow> args \<Rightarrow> item \<Rightarrow> item list \<Rightarrow> error + ty option" where
  "get_item_type 0 a item items = Inl RecursionError"
| "get_item_type (Suc n) a item items =
     (let item_type = get_type a (content item) in
      if item_type = None \<and> parent_id item \<noteq> None then
        (case filter (\<lambda>parent. Some (i_id parent) = parent_id item) items of
           [] \<Rightarrow> Inr item_type
         | parent # _ \<Rightarrow>
             (case get_item_type n a parent items of
                Inl _ \<Rightarrow> Inr item_type
              | Inr t \<Rightarrow> Inr t))
      else Inr item_type)"

section \<open>Labels\<close>

definition add_label :: "nat \<Rightarrow> string \<Rightarrow> state \<Rightarrow> state" where
  "add_label i l s =
     (let item = tasks s ! i in
      if l \<notin> set (labels item) then
        s\<lparr>tasks := (tasks s)[i := item\<lparr>labels := labels item @ [l]\<rparr>],
          overview_item_ids := (overview_item_ids s)(i_id item \<mapsto>
             (case overview_item_ids s (i_id item) of Some c \<Rightarrow> c + 1 | None \<Rightarrow> 1)),
          overview_item_labels := (overview_item_labels s)(i_id item \<mapsto> i)\<rparr>
      else s)"

definition remove_label :: "nat \<Rightarrow> string \<Rightarrow> state \<Rightarrow> state" where
  "remove_label i l s =
     (let item = tasks s ! i in
      if l \<in> set (labels item) then
        s\<lparr>tasks := (tasks s)[i := item\<lparr>labels := remove1 l (labels item)\<rparr>],
          overview_item_ids := (overview_item_ids s)(i_id item \<mapsto>
             (case overview_item_ids s (i_id item) of Some c \<Rightarrow> c - 1 | None \<Rightarrow> - 1)),
          overview_item_labels := (overview_item_labels s)(i_id item \<mapsto> i)\<rparr>
      else s)"

section \<open>Headers\<close>

text \<open>
  \<^verbatim>\<open>check_header\<close> on the title of a project, section or item. When the title starts
  with one of the two markers, the function sets its flag and calls \<^verbatim>\<open>level.update\<close>,
  which raises \<^verbatim>\<open>AttributeError\<close>; no handler surrounds the call, here or in the caller.
  Otherwise both flags are returned \<open>False\<close>.
\<close>

definition check_header :: "string \<Rightarrow> error + bool \<times> bool" where
  "check_header name =
     (if take 3 name = ''** '' then Inl AttributeError
      else if take 3 name = ''!* '' then Inl AttributeError
      else Inr (False, False))"

definition startswith_star :: "string \<Rightarrow> bool" where
  "startswith_star c = (take 1 c = ''*'')"

text \<open>
  The header part of the loop body. \<^verbatim>\<open>item.content[0]\<close> on an empty title raises
  \<^verbatim>\<open>IndexError\<close>, every \<^verbatim>\<open>update\<close> raises \<^verbatim>\<open>AttributeError\<close>, all outside every handler.
  The part changes nothing: it ends the pass or goes on.
\<close>

definition apply_headers ::
  "bool \<Rightarrow> bool \<Rightarrow> bool \<Rightarrow> bool \<Rightarrow> item \<Rightarrow> nat list \<Rightarrow> error + unit" where
  "apply_headers header_all_in_p header_all_in_s unheader_all_in_p unheader_all_in_s
       item child_items =
     (case check_header (content item) of
        Inl e \<Rightarrow> Inl e
      | Inr (header_all_in_i, unheader_all_in_i) \<Rightarrow>
          if (header_all_in_p \<or> header_all_in_s \<or> header_all_in_i) \<and> content item = []
          then Inl IndexError
          else if (header_all_in_p \<or> header_all_in_s \<or> header_all_in_i)
                  \<and> hd (content item) \<noteq> CHR ''*''
          then Inl AttributeError
          else if (unheader_all_in_p \<or> unheader_all_in_s) \<and> content item = []
          then Inl IndexError
          else if (unheader_all_in_p \<or> unheader_all_in_s) \<and> hd (content item) = CHR ''*''
          then Inl AttributeError
          else if unheader_all_in_i \<and> child_items \<noteq> []
          then Inl AttributeError
          else Inr ())"

section \<open>Recurring lists\<close>

text \<open>\<^verbatim>\<open>item[key]\<close> and \<^verbatim>\<open>item.date_old\<close> on an object of the client library.\<close>

definition subscript :: "item \<Rightarrow> string \<Rightarrow> error + int" where
  "subscript item key = Inl TypeError"

definition date_old :: "item \<Rightarrow> error + int" where
  "date_old item = Inl AttributeError"

text \<open>
  The body of the outer \<^verbatim>\<open>try\<close> of \<^verbatim>\<open>run_recurring_lists_logic\<close> for a parentless item.
  A missing due date raises \<^verbatim>\<open>AttributeError\<close>. For a recurring item the comparison with
  \<^verbatim>\<open>item.date_old\<close> raises in the inner \<^verbatim>\<open>try\<close>; its handler formats a log message with
  \<^verbatim>\<open>item['content']\<close>, which raises again, before it stores anything. Had the comparison
  returned, the next statement would be \<^verbatim>\<open>item.update(date_old=...)\<close>, which raises too.
\<close>

definition recurring_root :: "item \<Rightarrow> error + unit" where
  "recurring_root item =
     (case due item of
        None \<Rightarrow> Inl AttributeError
      | Some du \<Rightarrow>
          if is_recurring du then
            (case date_old item of
               Inl _ \<Rightarrow>
                 (case subscript item ''content'' of
                    Inl e \<Rightarrow> Inl e
                  | Inr _ \<Rightarrow> Inl TypeError)
             | Inr old \<Rightarrow> if date du \<noteq> old then Inl AttributeError else Inr ())
          else Inr ())"

text \<open>
  The block for an item with a parent: \<^verbatim>\<open>item['r_tag']\<close> raises; had it returned 1, the
  next statement \<^verbatim>\<open>item.update(is_completed)\<close> names a variable bound nowhere and raises
  \<^verbatim>\<open>NameError\<close>. The statements after it are never reached.
\<close>

definition regenerate_child :: "item \<Rightarrow> error + unit" where
  "regenerate_child item =
     (case subscript item ''r_tag'' of
        Inl e \<Rightarrow> Inl e
      | Inr r \<Rightarrow> if r = 1 then Inl NameError else Inr ())"

text \<open>
  \<^verbatim>\<open>run_recurring_lists_logic\<close>: both blocks sit in \<^verbatim>\<open>try ... except: pass\<close>, so whatever
  they raise, the state stays as it is.
\<close>

definition run_recurring_lists_logic :: "args \<Rightarrow> item \<Rightarrow> state \<Rightarrow> state" where
  "run_recurring_lists_logic a item s =
     (let s1 = (if parent_id item = None
                then (case recurring_root item of Inl _ \<Rightarrow> s | Inr _ \<Rightarrow> s)
                else s)
      in if regeneration a \<noteq> None \<and> parent_id item \<noteq> None then
           (case regenerate_child item of
              Inl _ \<Rightarrow> s1
            | Inr _ \<Rightarrow> s1)
         else s1)"

text \<open>
  The reset of an old flag when regeneration is off (lines 586 to 593): the subscript
  raises and the handler passes.
\<close>

definition reset_r_tag :: "item \<Rightarrow> state \<Rightarrow> state" where
  "reset_r_tag item s =
     (case subscript item ''r_tag'' of
        Inl _ \<Rightarrow> s
      | Inr _ \<Rightarrow> s)"

section \<open>Next-action labelling\<close>

text \<open>
  The branch for a parentless item. The two flags are \<^verbatim>\<open>first_found_section\<close> and
  \<^verbatim>\<open>first_found_project\<close>.
\<close>

definition label_root ::
  "string \<Rightarrow> ty option \<Rightarrow> ty option \<Rightarrow> ty option \<Rightarrow> nat \<Rightarrow> bool \<times> bool \<times> state
     \<Rightarrow> bool \<times> bool \<times> state" where
  "label_root l item_type section_type project_type i st =
     (case st of (first_found_section, first_found_project, s) \<Rightarrow>
      if parent_id (tasks s ! i) = None then
        (let (ffs1, ffp1, s1) =
           (if item_type \<noteq> None then
              (first_found_section, first_found_project, add_label i l s)
            else if section_type \<noteq> None then
              (if section_type = Some Sequential \<or> section_type = Some S_P then
                 (if \<not> first_found_section
                  then (True, first_found_project, add_label i l s)
                  else (first_found_section, first_found_project, s))
               else if section_type = Some Parallel \<or> section_type = Some P_S then
                 (first_found_section, first_found_project, add_label i l s)
               else (first_found_section, first_found_project, s))
            else if project_type \<noteq> None then
              (if project_type = Some Sequential \<or> project_type = Some S_P then
                 (if \<not> first_found_project
                  then (first_found_section, True, add_label i l s)
                  else (first_found_section, first_found_project, s))
               else if project_type = Some Parallel \<or> project_type = Some P_S then
                 (first_found_section, first_found_project, add_label i l s)
               else (first_found_section, first_found_project, s))
            else (first_found_section, first_found_project, s))
         in (if \<not> ffs1 \<and> section_type \<noteq> None then True else ffs1,
             if \<not> ffp1 \<and> project_type \<noteq> None then True else ffp1,
             s1))
      else (first_found_section, first_found_project, s))"

text \<open>The loop over \<open>child_items\<close> of a sequential or p-s item \<open>i\<close>.\<close>

fun pass_down :: "string \<Rightarrow> nat \<Rightarrow> nat list \<Rightarrow> state \<Rightarrow> state" where
  "pass_down l i [] s = s"
| "pass_down l i (child_item # cs) s =
     (if startswith_star (content (tasks s ! child_item)) then pass_down l i cs s
      else if \<not> is_completed (tasks s ! child_item) \<and> l \<in> set (labels (tasks s ! i))
      then pass_down l i cs (remove_label i l (add_label child_item l s))
      else pass_down l i cs (remove_label child_item l s))"

text \<open>The loop over \<open>child_items\<close> of a parallel item.\<close>

fun fan_out :: "string \<Rightarrow> nat list \<Rightarrow> state \<Rightarrow> state" where
  "fan_out l [] s = s"
| "fan_out l (child_item # cs) s =
     (if startswith_star (content (tasks s ! child_item)) then fan_out l cs s
      else if \<not> is_completed (tasks s ! child_item)
      then fan_out l cs (add_label child_item l s)
      else fan_out l cs s)"

definition active_type_of :: "ty option list \<Rightarrow> ty option" where
  "active_type_of hierarchy_types =
     (case filter (\<lambda>x. x \<noteq> None) hierarchy_types of [] \<Rightarrow> None | x # _ \<Rightarrow> x)"

definition label_children ::
  "string \<Rightarrow> ty option list \<Rightarrow> nat \<Rightarrow> nat list \<Rightarrow> state \<Rightarrow> state" where
  "label_children l hierarchy_types i child_items s =
     (if length child_items > 0 then
        (let active_type = active_type_of hierarchy_types in
         if active_type = Some Sequential \<or> active_type = Some P_S then
           pass_down l i child_items s
         else if active_type = Some Parallel
                 \<or> (active_type = Some S_P \<and> l \<in> set (labels (tasks s ! i))) then
           fan_out l child_items (remove_label i l s)
         else s)
      else s)"

section \<open>Temporal gates\<close>

text \<open>\<^verbatim>\<open>str.find\<close> and \<^verbatim>\<open>str.rfind\<close>; \<open>None\<close> is the source's \<open>-1\<close>.\<close>

fun find_from :: "string \<Rightarrow> string \<Rightarrow> nat \<Rightarrow> nat option" where
  "find_from needle [] k = (if needle = [] then Some k else None)"
| "find_from needle (x # xs) k =
     (if take (length needle) (x # xs) = needle then Some k
      else find_from needle xs (Suc k))"

definition find_str :: "string \<Rightarrow> string \<Rightarrow> nat option" where
  "find_str needle hay = find_from needle hay 0"

definition rfind_str :: "string \<Rightarrow> string \<Rightarrow> nat option" where
  "rfind_str needle hay =
     map_option (\<lambda>k. length hay - k - length needle) (find_str (rev needle) (rev hay))"

definition remove_from_children :: "string \<Rightarrow> nat list \<Rightarrow> state \<Rightarrow> state" where
  "remove_from_children l child_items s = foldl (\<lambda>s c. remove_label c l s) s child_items"

text \<open>
  Future hiding. The result says whether the loop body went on to \<^verbatim>\<open>continue\<close>. When the
  option is set, the condition reads \<^verbatim>\<open>item.data\<close>, which raises \<^verbatim>\<open>AttributeError\<close>; the
  handler continues with the next item, so no label is removed and no later gate runs.
  When the option is not set, the condition is false at its first conjunct.
\<close>

definition hide_future_gate :: "string \<Rightarrow> args \<Rightarrow> env \<Rightarrow> nat \<Rightarrow> state \<Rightarrow> bool \<times> state" where
  "hide_future_gate l a e i s = (if hide_future a > 0 then (True, s) else (False, s))"

text \<open>
  The absolute start date. A date that does not parse raises \<^verbatim>\<open>ValueError\<close>; the handler
  logs a warning and continues with the next item.
\<close>

definition start_date_gate ::
  "string \<Rightarrow> args \<Rightarrow> env \<Rightarrow> nat \<Rightarrow> nat list \<Rightarrow> state \<Rightarrow> bool \<times> state" where
  "start_date_gate l a e i child_items s =
     (let c = content (tasks s ! i);
          f1 = find_str ''start='' c;
          f2 = find_str ''start=due-'' c
      in case f1 of
           None \<Rightarrow> (False, s)
         | Some k1 \<Rightarrow>
             if f2 \<noteq> None then (False, s)
             else
               (let rest = drop (k1 + 6) c;
                    start_date = (case find_str '' '' rest of
                                    Some f_end \<Rightarrow> take f_end rest
                                  | None \<Rightarrow> rest)
                in case strptime e start_date (dateformat a) of
                     None \<Rightarrow> (True, s)
                   | Some sd \<Rightarrow>
                       (let future_diff = (now e - sd) div DAY in
                        if future_diff < 0
                        then (True, remove_from_children l child_items (remove_label i l s))
                        else (False, s))))"

text \<open>
  \<^verbatim>\<open>timedelta(days=n)\<close> raises \<^verbatim>\<open>OverflowError\<close> beyond 999999999 days; a date is an ordinal
  from 1 to 3652059.
\<close>

definition timedelta_days :: "int \<Rightarrow> int option" where
  "timedelta_days n = (if \<bar>n\<bar> \<le> 999999999 then Some n else None)"

text \<open>
  The start date relative to the due date. Every exception of the block (no due date, an
  offset that is no number, an overflow, \<open>td\<close> bound by no earlier iteration) ends the
  iteration; an assignment to \<open>td\<close> made before it stays.

  \<open>offset_td\<close> is the value of \<open>td\<close> the block subtracts from the due date: \<open>None\<close> when
  \<^verbatim>\<open>int\<close> or \<^verbatim>\<open>timedelta\<close> raised, or when no branch assigns \<open>td\<close> and no earlier iteration
  has bound it.
\<close>

definition offset_td :: "env \<Rightarrow> string \<Rightarrow> nat \<Rightarrow> int option \<Rightarrow> int option" where
  "offset_td e c f td_before =
     (let f1a = find_str ''d'' c;
          f1b = rfind_str ''d'' c;
          f2 = find_str ''w'' c;
          rest = drop (f + 10) c;
          offset = (case find_str '' '' rest of
                      Some f_end \<Rightarrow> take (f_end - 1) rest
                    | None \<Rightarrow> butlast rest)
      in if f1a \<noteq> f1b \<and> f1b \<noteq> None then
           (case int_of_str e offset of None \<Rightarrow> None | Some n \<Rightarrow> timedelta_days n)
         else if f2 \<noteq> None then
           (case int_of_str e offset of None \<Rightarrow> None | Some n \<Rightarrow> timedelta_days (7 * n))
         else td_before)"

definition apply_offset ::
  "string \<Rightarrow> env \<Rightarrow> nat \<Rightarrow> nat list \<Rightarrow> int \<Rightarrow> int \<Rightarrow> state \<Rightarrow> state" where
  "apply_offset l e i child_items item_due_date t s =
     (let s1 = s\<lparr>td := Some t\<rparr>;
          start_date = item_due_date - t
      in if start_date < 1 \<or> start_date > 3652059 then s1
         else if (now e - start_date * DAY) div DAY < 0
         then remove_from_children l child_items (remove_label i l s1)
         else s1)"

definition due_offset_gate ::
  "string \<Rightarrow> args \<Rightarrow> env \<Rightarrow> nat \<Rightarrow> nat list \<Rightarrow> state \<Rightarrow> state" where
  "due_offset_gate l a e i child_items s =
     (case find_str ''start=due-'' (content (tasks s ! i)) of
        None \<Rightarrow> s
      | Some f \<Rightarrow>
          (case due (tasks s ! i) of
             None \<Rightarrow> s
           | Some du \<Rightarrow>
               (case offset_td e (content (tasks s ! i)) f (td s) of
                  None \<Rightarrow> s
                | Some t \<Rightarrow> apply_offset l e i child_items (date du) t s)))"

definition gates :: "string \<Rightarrow> args \<Rightarrow> env \<Rightarrow> nat \<Rightarrow> nat list \<Rightarrow> state \<Rightarrow> state" where
  "gates l a e i child_items s =
     (case hide_future_gate l a e i s of
        (True, s1) \<Rightarrow> s1
      | (False, s1) \<Rightarrow>
          (case start_date_gate l a e i child_items s1 of
             (True, s2) \<Rightarrow> s2
           | (False, s2) \<Rightarrow> due_offset_gate l a e i child_items s2))"

text \<open>The labelling part of the loop body, for the item at position \<open>i\<close>.\<close>

definition label_item ::
  "string \<Rightarrow> args \<Rightarrow> env \<Rightarrow> ty option \<Rightarrow> ty option \<Rightarrow> nat list \<Rightarrow> nat \<Rightarrow> nat list
     \<Rightarrow> bool \<times> bool \<times> state \<Rightarrow> error + bool \<times> bool \<times> state" where
  "label_item l a e section_type project_type items i child_items st =
     (case st of (first_found_section, first_found_project, s) \<Rightarrow>
      if is_completed (tasks s ! i) then Inr st
      else if startswith_star (content (tasks s ! i)) then
        Inr (first_found_section, first_found_project, remove_label i l s)
      else
        (case get_item_type (recursion_limit e) a (tasks s ! i) (map (\<lambda>j. tasks s ! j) items) of
           Inl err \<Rightarrow> Inl err
         | Inr item_type \<Rightarrow>
             (case label_root l item_type section_type project_type i st of
                (ffs1, ffp1, s1) \<Rightarrow>
                  Inr (ffs1, ffp1,
                       gates l a e i child_items
                         (label_children l [item_type, section_type, project_type]
                            i child_items s1)))))"

section \<open>The traversal\<close>

text \<open>A \<^verbatim>\<open>for\<close> loop whose body may raise: the first error ends it.\<close>

fun for_each :: "('a \<Rightarrow> 's \<Rightarrow> error + 's) \<Rightarrow> 'a list \<Rightarrow> 's \<Rightarrow> error + 's" where
  "for_each f [] s = Inr s"
| "for_each f (x # xs) s = (case f x s of Inl e \<Rightarrow> Inl e | Inr s' \<Rightarrow> for_each f xs s')"

definition child_items_all_of :: "item list \<Rightarrow> nat list \<Rightarrow> nat \<Rightarrow> nat list" where
  "child_items_all_of ts items i = filter (\<lambda>x. parent_id (ts ! x) = Some (i_id (ts ! i))) items"

definition child_items_of :: "item list \<Rightarrow> nat list \<Rightarrow> nat \<Rightarrow> nat list" where
  "child_items_of ts items i =
     (let non_completed_tasks = filter (\<lambda>x. \<not> is_completed (ts ! x)) items
      in filter (\<lambda>x. parent_id (ts ! x) = Some (i_id (ts ! i))) non_completed_tasks)"

text \<open>
  The body of the loop over the items of a section. \<open>items\<close> is the sorted list of the
  section, as positions in \<open>tasks\<close>.
\<close>

definition visit ::
  "string option \<Rightarrow> args \<Rightarrow> env \<Rightarrow> bool \<Rightarrow> bool \<Rightarrow> bool \<Rightarrow> bool
     \<Rightarrow> ty option \<Rightarrow> ty option \<Rightarrow> nat list \<Rightarrow> nat \<Rightarrow> bool \<times> bool \<times> state
     \<Rightarrow> error + bool \<times> bool \<times> state" where
  "visit next_action_label a e header_all_in_p unheader_all_in_p
       header_all_in_s unheader_all_in_s section_type project_type items i st =
     (case st of (first_found_section, first_found_project, s) \<Rightarrow>
      let child_items = child_items_of (tasks s) items i
      in (case apply_headers header_all_in_p header_all_in_s unheader_all_in_p
                unheader_all_in_s (tasks s ! i) child_items of
           Inl err \<Rightarrow> Inl err
         | Inr _ \<Rightarrow>
             (let s2 = (if regeneration a = None \<or> regeneration a = Some 0
                        then reset_r_tag (tasks s ! i) s else s);
                  s3 = (if regeneration a \<noteq> None \<or> (end_arg a \<noteq> None \<and> end_arg a \<noteq> Some 0)
                        then run_recurring_lists_logic a (tasks s2 ! i) s2
                        else s2)
              in case next_action_label of
                   None \<Rightarrow> Inr (first_found_section, first_found_project, s3)
                 | Some l \<Rightarrow>
                     label_item l a e section_type project_type items i child_items
                       (first_found_section, first_found_project, s3))))"

definition create_none_section :: todo_section where
  "create_none_section = \<lparr>s_id = None, s_name = ''None'', s_project_id = 0\<rparr>"

definition sort_items :: "item list \<Rightarrow> nat list \<Rightarrow> nat list" where
  "sort_items ts xs =
     sort_key (\<lambda>x. (case parent_id (ts ! x) of None \<Rightarrow> 0 | Some p \<Rightarrow> p, i_order (ts ! x))) xs"

text \<open>
  The body of the loop over \<open>project_sections\<close>: \<open>None\<close> is the section made by
  \<^verbatim>\<open>create_none_section\<close>, \<open>Some k\<close> the fetched section at position \<open>k\<close>. The state of
  the loop is \<^verbatim>\<open>first_found_project\<close> and the pass state.
\<close>

definition process_section ::
  "string option \<Rightarrow> args \<Rightarrow> env \<Rightarrow> bool \<Rightarrow> bool \<Rightarrow> ty option \<Rightarrow> nat list
     \<Rightarrow> nat option \<Rightarrow> bool \<times> state \<Rightarrow> error + bool \<times> state" where
  "process_section next_action_label a e header_all_in_p unheader_all_in_p
       project_type project_items sr st =
     (case st of (first_found_project, s) \<Rightarrow>
      let section = (case sr of None \<Rightarrow> create_none_section | Some k \<Rightarrow> sections s ! k)
      in (case check_header (s_name section) of
            Inl err \<Rightarrow> Inl err
          | Inr hs \<Rightarrow>
              (let section_type = get_section_type a (Some section);
                   items = sort_items (tasks s)
                             (filter (\<lambda>x. section_id (tasks s ! x) = s_id section) project_items)
               in (case for_each
                          (visit next_action_label a e header_all_in_p unheader_all_in_p
                             (fst hs) (snd hs) section_type project_type items)
                          items (False, first_found_project, s) of
                     Inl err \<Rightarrow> Inl err
                   | Inr r \<Rightarrow> Inr (snd r)))))"

text \<open>
  The body of the loop over the projects: first the items without a section, then the
  sections of the project.
\<close>

definition process_project ::
  "string option \<Rightarrow> args \<Rightarrow> env \<Rightarrow> nat \<Rightarrow> state \<Rightarrow> error + state" where
  "process_project next_action_label a e k s =
     (let project = projects s ! k
      in (case check_header (p_name project) of
            Inl err \<Rightarrow> Inl err
          | Inr hp \<Rightarrow>
              (let project_type = get_project_type a project;
                   project_items = filter (\<lambda>x. project_id (tasks s ! x) = p_id project)
                                     [0..<length (tasks s)]
               in (case for_each
                          (process_section next_action_label a e (fst hp) (snd hp)
                             project_type project_items)
                          [None] (False, s) of
                     Inl err \<Rightarrow> Inl err
                   | Inr r \<Rightarrow>
                       (case for_each
                               (process_section next_action_label a e (fst hp) (snd hp)
                                  project_type project_items)
                               (map Some
                                  (filter (\<lambda>x. s_project_id (sections (snd r) ! x) = p_id project)
                                     [0..<length (sections (snd r))]))
                               r of
                          Inl err \<Rightarrow> Inl err
                        | Inr r1 \<Rightarrow> Inr (snd r1))))))"

text \<open>
  One pass. The snapshot is the \<open>tasks\<close>, \<open>sections\<close> and \<open>projects\<close> of the state given;
  the two dictionaries start empty and \<open>td\<close> unbound. The parameter \<^verbatim>\<open>regen_label_names\<close>
  of the source is read only by statements that are never reached.
\<close>

definition autodoist_magic ::
  "args \<Rightarrow> env \<Rightarrow> string option \<Rightarrow> state \<Rightarrow> error + state" where
  "autodoist_magic a e next_action_label s =
     for_each (process_project next_action_label a e)
       [0..<length (projects s)]
       (s\<lparr>overview_item_ids := Map.empty, overview_item_labels := Map.empty, td := None\<rparr>)"

section \<open>Notions used to state the properties\<close>

definition has_label :: "string \<Rightarrow> state \<Rightarrow> nat \<Rightarrow> bool" where
  "has_label l s j = (l \<in> set (labels (tasks s ! j)))"

text \<open>
  A walk up the parent links, as \<^verbatim>\<open>get_item_type\<close> follows them: every node but the last
  has no tag of its own and a parent, and its successor is the first item of \<open>items\<close> with
  the parent's id.
\<close>

fun parent_walk :: "args \<Rightarrow> item list \<Rightarrow> item list \<Rightarrow> bool" where
  "parent_walk a items [] = False"
| "parent_walk a items [x] = True"
| "parent_walk a items (x # y # rest) =
     (get_type a (content x) = None \<and> parent_id x \<noteq> None
      \<and> (case filter (\<lambda>parent. Some (i_id parent) = parent_id x) items of
            [] \<Rightarrow> False | p # _ \<Rightarrow> p = y)
      \<and> parent_walk a items (y # rest))"

text \<open>The walk ends at a node with a tag, without a parent, or whose parent is not listed.\<close>

definition walk_ends :: "args \<Rightarrow> item list \<Rightarrow> item \<Rightarrow> bool" where
  "walk_ends a items x =
     (get_type a (content x) \<noteq> None \<or> parent_id x = None
      \<or> filter (\<lambda>parent. Some (i_id parent) = parent_id x) items = [])"

text \<open>The label lists of the snapshot hold no label twice, as those of the service do.\<close>

definition labels_ok :: "state \<Rightarrow> bool" where
  "labels_ok s = (\<forall>x\<in>set (tasks s). distinct (labels x))"

text \<open>The children of a list whose title does not start with the header flag.\<close>

definition live_children :: "state \<Rightarrow> nat list \<Rightarrow> nat list" where
  "live_children s cs = filter (\<lambda>c. \<not> startswith_star (content (tasks s ! c))) cs"

text \<open>
  The non-completed, non-header children of the item at position \<open>i\<close>, in the order in
  which the loop body meets them.
\<close>

definition live_child_items :: "state \<Rightarrow> nat list \<Rightarrow> nat \<Rightarrow> nat list" where
  "live_child_items s items i = live_children s (child_items_of (tasks s) items i)"

text \<open>An item without its labels; two states with the same items up to their labels.\<close>

definition skel :: "item \<Rightarrow> item" where
  "skel x = x\<lparr>labels := []\<rparr>"

definition same_frame :: "state \<Rightarrow> state \<Rightarrow> bool" where
  "same_frame s s' =
     (length (tasks s') = length (tasks s) \<and> (\<forall>j. skel (tasks s' ! j) = skel (tasks s ! j))
      \<and> sections s' = sections s \<and> projects s' = projects s)"

text \<open>
  What every label operation keeps: the frame, label lists without duplicates, and the
  labels other than \<open>l\<close>.
\<close>

definition keeps :: "string \<Rightarrow> state \<Rightarrow> state \<Rightarrow> bool" where
  "keeps l s s' =
     (same_frame s s' \<and> (labels_ok s \<longrightarrow> labels_ok s')
      \<and> (\<forall>j. set (labels (tasks s' ! j)) - {l} = set (labels (tasks s ! j)) - {l}))"

text \<open>
  The date of a \<^verbatim>\<open>start=\<close> token that begins at position \<open>k\<close> of the title: what follows
  the six characters of \<^verbatim>\<open>start=\<close>, up to the next space or the end.
\<close>

definition start_token :: "string \<Rightarrow> nat \<Rightarrow> string" where
  "start_token c k =
     (let rest = drop (k + 6) c
      in case find_str '' '' rest of Some f_end \<Rightarrow> take f_end rest | None \<Rightarrow> rest)"

text \<open>
  Two passes in a row: the second one starts from the tasks, sections and projects the
  first one left.
\<close>

definition run_twice :: "args \<Rightarrow> env \<Rightarrow> string option \<Rightarrow> state \<Rightarrow> error + state" where
  "run_twice a e next_action_label s =
     (case autodoist_magic a e next_action_label s of
        Inl err \<Rightarrow> Inl err
      | Inr s1 \<Rightarrow> autodoist_magic a e next_action_label s1)"

text \<open>
  Whether \<^verbatim>\<open>add_label\<close> is reached for a parentless item that is neither completed nor a
  header, from the three types and the two first-found flags.
\<close>

definition root_gets_label :: "ty option \<Rightarrow> ty option \<Rightarrow> ty option \<Rightarrow> bool \<Rightarrow> bool \<Rightarrow> bool" where
  "root_gets_label item_type section_type project_type ffs ffp =
     (if item_type \<noteq> None then True
      else if section_type \<noteq> None then
        (if section_type = Some Sequential \<or> section_type = Some S_P then \<not> ffs else True)
      else if project_type \<noteq> None then
        (if project_type = Some Sequential \<or> project_type = Some S_P then \<not> ffp else True)
      else False)"

text \<open>
  The section a round of the loop over \<open>project_sections\<close> works on, the items it visits
  in their order, and the items and sections of the project at position \<open>k\<close>.
\<close>

definition section_of :: "state \<Rightarrow> nat option \<Rightarrow> todo_section" where
  "section_of s sr = (case sr of None \<Rightarrow> create_none_section | Some k \<Rightarrow> sections s ! k)"

definition section_items :: "state \<Rightarrow> nat option \<Rightarrow> nat list \<Rightarrow> nat list" where
  "section_items s sr project_items =
     sort_items (tasks s)
       (filter (\<lambda>x. section_id (tasks s ! x) = s_id (section_of s sr)) project_items)"

definition project_items_of :: "state \<Rightarrow> nat \<Rightarrow> nat list" where
  "project_items_of s k =
     filter (\<lambda>x. project_id (tasks s ! x) = p_id (projects s ! k)) [0..<length (tasks s)]"

definition project_sections_of :: "state \<Rightarrow> nat \<Rightarrow> nat list" where
  "project_sections_of s k =
     filter (\<lambda>x. s_project_id (sections s ! x) = p_id (projects s ! k)) [0..<length (sections s)]"

text \<open>
  A project type under which only the first item found gets the label, and the items that
  can be that item: parentless, not completed, no header.
\<close>

definition seq_like :: "ty option \<Rightarrow> bool" where
  "seq_like pt = (pt = Some Sequential \<or> pt = Some S_P)"

definition eligible_root :: "item \<Rightarrow> bool" where
  "eligible_root t = (parent_id t = None \<and> \<not> is_completed t \<and> \<not> startswith_star (content t))"

text \<open>No open sub-tasks: every item that has a parent is completed.\<close>

definition open_flat :: "state \<Rightarrow> bool" where
  "open_flat s = (\<forall>x\<in>set (tasks s). parent_id x \<noteq> None \<longrightarrow> is_completed x)"

text \<open>
  Two runs side by side, from the states \<open>s\<close> and \<open>t\<close> to \<open>s'\<close> and \<open>t'\<close>. They treat the item
  at position \<open>j\<close> alike when both have left its labels as they were, or it holds the label
  \<open>l\<close> in both or in neither. They are in lockstep when they have changed nothing but that
  label, \<open>td\<close> has the same value in both, and every item is treated alike.
\<close>

definition alike :: "string \<Rightarrow> state \<Rightarrow> state \<Rightarrow> state \<Rightarrow> state \<Rightarrow> nat \<Rightarrow> bool" where
  "alike l s t s' t' j =
     ((labels (tasks s' ! j) = labels (tasks s ! j) \<and> labels (tasks t' ! j) = labels (tasks t ! j))
      \<or> has_label l s' j = has_label l t' j)"

definition lockstep :: "string \<Rightarrow> state \<Rightarrow> state \<Rightarrow> state \<Rightarrow> state \<Rightarrow> bool" where
  "lockstep l s t cs ct =
     (keeps l s cs \<and> keeps l t ct \<and> td ct = td cs \<and> (\<forall>j. alike l s t cs ct j))"

text \<open>
  An item without open sub-tasks that no temporal gate acts on: either future hiding is
  set, and the loop body goes on to the next item before any gate, or the title holds no
  \<^verbatim>\<open>start=\<close> token.
\<close>

definition plain_leaf :: "args \<Rightarrow> state \<Rightarrow> nat \<Rightarrow> bool" where
  "plain_leaf a s x =
     (child_items_of (tasks s) [0..<length (tasks s)] x = []
      \<and> (hide_future a > 0 \<or> find_str ''start='' (content (tasks s ! x)) = None))"
section \<open>Example snapshots\<close>

definition ex_args :: args where
  "ex_args = \<lparr>regeneration = None, end_arg = None, pp_suffix = ''//'', ss_suffix = ''--'',
     ps_suffix = ''/-'', sp_suffix = ''-/'', dateformat = ''%d-%m-%Y'', hide_future = 0,
     inbox = None\<rparr>"

definition ex_env :: env where
  "ex_env = \<lparr>now = 0, strptime = (\<lambda>_ _. None), int_of_str = (\<lambda>_. None),
     recursion_limit = 1000\<rparr>"

text \<open>An item of project 1 without due date: id, parent, section, title, order, completed, labels.\<close>

definition ex_item ::
  "nat \<Rightarrow> nat option \<Rightarrow> nat option \<Rightarrow> string \<Rightarrow> int \<Rightarrow> bool \<Rightarrow> string list \<Rightarrow> item" where
  "ex_item i p sec c ord done ls =
     \<lparr>i_id = i, parent_id = p, section_id = sec, project_id = 1, content = c, i_order = ord,
      is_completed = done, due = None, labels = ls\<rparr>"

text \<open>A snapshot with the one project 1 of the given name and the given sections.\<close>

definition ex_state :: "item list \<Rightarrow> todo_section list \<Rightarrow> string \<Rightarrow> state" where
  "ex_state ts secs pn =
     \<lparr>tasks = ts, sections = secs, projects = [\<lparr>p_id = 1, p_name = pn\<rparr>],
      overview_item_ids = Map.empty, overview_item_labels = Map.empty, td = None\<rparr>"

text \<open>The labels of every task after a pass; the empty list when the pass raised.\<close>

definition labels_after :: "error + state \<Rightarrow> string list list" where
  "labels_after r = (case r of Inl _ \<Rightarrow> [] | Inr s \<Rightarrow> map labels (tasks s))"

text \<open>Suffix tokens of different lengths.\<close>

definition long_ss_args :: args where
  "long_ss_args = ex_args\<lparr>ss_suffix := ''---''\<rparr>"

text \<open>Two items that are each other's parent, and a child below a sequential parent.\<close>

definition cyc_a :: item where
  "cyc_a = ex_item 1 (Some 2) None ''a'' 1 False []"

definition cyc_b :: item where
  "cyc_b = ex_item 2 (Some 1) None ''b'' 1 False []"

definition seq_parent :: item where
  "seq_parent = ex_item 1 None None ''Task--'' 1 False []"

definition seq_child :: item where
  "seq_child = ex_item 2 (Some 1) None ''A'' 1 False []"

text \<open>A completed item that still carries the label.\<close>

definition done_labelled :: state where
  "done_labelled = ex_state [ex_item 1 None None ''X'' 1 True [''next'']] [] ''P''"

text \<open>A header item that carries the label, with a sibling.\<close>

definition header_labelled :: state where
  "header_labelled =
     ex_state [ex_item 1 None None ''* X'' 1 False [''next''],
               ex_item 2 None None ''Y'' 2 False [''other'']] [] ''P''"

text \<open>
  A sequential item with the children A and B; in the first snapshot the item holds the
  label, in the second B is completed and still carries the label it had.
\<close>

definition seq_labelled :: state where
  "seq_labelled =
     ex_state [ex_item 1 None None ''Task--'' 1 False [''next''],
               ex_item 2 (Some 1) None ''A'' 1 False [],
               ex_item 3 (Some 1) None ''B'' 2 False []] [] ''P''"

text \<open>
  A sequential item that holds the label, with a header child H, the child A, a completed
  child B and the child C; H and B carry the label too.
\<close>

definition seq_mixed :: state where
  "seq_mixed =
     ex_state [ex_item 1 None None ''Task--'' 1 False [''next''],
               ex_item 2 (Some 1) None ''* H'' 1 False [''next''],
               ex_item 3 (Some 1) None ''A'' 2 False [],
               ex_item 4 (Some 1) None ''B'' 3 True [''next''],
               ex_item 5 (Some 1) None ''C'' 4 False []] [] ''P''"

definition seq_done_child :: state where
  "seq_done_child =
     ex_state [ex_item 1 None None ''Task--'' 1 False [],
               ex_item 2 (Some 1) None ''A'' 1 False [],
               ex_item 3 (Some 1) None ''B'' 2 True [''next'']] [] ''P''"

text \<open>A parallel item with the children A and B, and one with a child and a grandchild.\<close>

definition par_labelled :: state where
  "par_labelled =
     ex_state [ex_item 1 None None ''Task//'' 1 False [''next''],
               ex_item 2 (Some 1) None ''A'' 1 False [],
               ex_item 3 (Some 1) None ''B'' 2 False []] [] ''P''"

definition par_chain :: state where
  "par_chain =
     ex_state [ex_item 1 None None ''Task//'' 1 False [],
               ex_item 2 (Some 1) None ''A'' 1 False [],
               ex_item 3 (Some 2) None ''G'' 1 False []] [] ''P''"

text \<open>A header item with a parallel child and a grandchild.\<close>

definition under_header :: state where
  "under_header =
     ex_state [ex_item 1 None None ''* X'' 1 False [],
               ex_item 2 (Some 1) None ''C//'' 1 False [],
               ex_item 3 (Some 2) None ''D'' 1 False []] [] ''P''"

definition under_header_stale :: state where
  "under_header_stale =
     ex_state [ex_item 1 None None ''* X'' 1 True [''next''],
               ex_item 2 (Some 1) None ''C//'' 1 False [],
               ex_item 3 (Some 2) None ''D'' 1 False []] [] ''P''"

text \<open>
  A sequential project with the root items a and b; b still carries the label and has
  the child c.
\<close>

definition stale_root :: state where
  "stale_root =
     ex_state [ex_item 1 None None ''a'' 1 False [],
               ex_item 2 None None ''b'' 2 False [''next''],
               ex_item 3 (Some 2) None ''c'' 1 False []] [] ''P--''"

text \<open>
  9 o'clock on 2026-11-04 (ordinal 739924); \<^verbatim>\<open>strptime\<close> knows the one date 2099-01-01
  (ordinal 766280) in the default format.
\<close>

definition milk_env :: env where
  "milk_env = \<lparr>now = 63929466000000000,
     strptime = (\<lambda>s f. if s = ''01-01-2099'' \<and> f = ''%d-%m-%Y''
                         then Some 66206592000000000 else None),
     int_of_str = (\<lambda>_. None), recursion_limit = 1000\<rparr>"

text \<open>An item with a start date in 2099 and a child, both labelled.\<close>

definition milk :: state where
  "milk =
     ex_state [ex_item 1 None None ''Buy milk start=01-01-2099'' 1 False [''next''],
               ex_item 2 (Some 1) None ''Shop'' 1 False [''next'']] [] ''P''"

text \<open>Labels are hidden 7 days ahead.\<close>

definition hide_args :: args where
  "hide_args = ex_args\<lparr>hide_future := 7\<rparr>"

text \<open>
  A recurring root item, due on 2024-01-02 (ordinal 738887) after a cycle that was due on
  2024-01-01, with a completed child and a completed grandchild; regeneration mode 1.
\<close>

definition regen_args :: args where
  "regen_args = ex_args\<lparr>regeneration := Some 1\<rparr>"

definition rolled_over :: state where
  "rolled_over =
     ex_state [(ex_item 1 None None ''Weekly review'' 1 False [])
                 \<lparr>due := Some \<lparr>date = 738887, is_recurring = True\<rparr>\<rparr>,
               ex_item 2 (Some 1) None ''Child'' 1 True [],
               ex_item 3 (Some 2) None ''Grandchild'' 1 True []] [] ''P''"

text \<open>The tasks after a pass; the empty list when the pass raised.\<close>

definition tasks_after :: "error + state \<Rightarrow> item list" where
  "tasks_after r = (case r of Inl _ \<Rightarrow> [] | Inr s \<Rightarrow> tasks s)"

text \<open>
  A sequential project with the root item b in the section S and, in no section, the
  header h and the root items a and c; in the second snapshot, with b and a only, b still
  carries the label.
\<close>

definition sectioned_fresh :: state where
  "sectioned_fresh =
     ex_state [ex_item 1 None (Some 7) ''b'' 1 False [],
               ex_item 2 None None ''* h'' 1 False [],
               ex_item 3 None None ''a'' 2 False [],
               ex_item 4 None None ''c'' 3 False []]
       [\<lparr>s_id = Some 7, s_name = ''S'', s_project_id = 1\<rparr>] ''P--''"

definition sectioned_stale :: state where
  "sectioned_stale =
     ex_state [ex_item 1 None (Some 7) ''b'' 1 False [''next''],
               ex_item 2 None None ''a'' 2 False []]
       [\<lparr>s_id = Some 7, s_name = ''S'', s_project_id = 1\<rparr>] ''P--''"

text \<open>
  A sequential project with the root items a and b; b still carries the label, and so
  does its completed child c.
\<close>

definition flat_done :: state where
  "flat_done =
     ex_state [ex_item 1 None None ''a'' 1 False [],
               ex_item 2 None None ''b'' 2 False [''next''],
               ex_item 3 (Some 2) None ''c'' 1 True [''next'']] [] ''P--''"
section \<open>The type classifier\<close>

text \<open>
  C6. The classifier compares the parallel-sequential and the sequential-parallel token
  with the last \<open>length ss_suffix\<close> characters of the title. With a three-character
  sequential token, a title that ends in the parallel-sequential token \<^verbatim>\<open>/-\<close> (and in
  neither the parallel nor the sequential token) is classified \<open>None\<close>, not p-s.
\<close>

theorem check_name_misses_ps:
  "ps_suffix long_ss_args = ''/-''
   \<and> py_suffix (length (ps_suffix long_ss_args)) ''Task/-'' = ps_suffix long_ss_args
   \<and> py_suffix (length (pp_suffix long_ss_args)) ''Task/-'' \<noteq> pp_suffix long_ss_args
   \<and> py_suffix (length (ss_suffix long_ss_args)) ''Task/-'' \<noteq> ss_suffix long_ss_args
   \<and> check_name long_ss_args ''Task/-'' = None"
  by (simp add: check_name_def py_suffix_def long_ss_args_def ex_args_def)

section \<open>The ancestor walk\<close>

lemma get_item_type_untagged:
  "0 < n \<Longrightarrow> get_type a (content item) = None
   \<Longrightarrow> \<forall>x\<in>set items. get_type a (content x) = None
   \<Longrightarrow> get_item_type n a item items = Inr None"
proof (induction n arbitrary: item)
  case 0
  then show ?case by simp
next
  case (Suc n)
  show ?case
  proof (cases "parent_id item = None")
    case True
    with Suc.prems show ?thesis by simp
  next
    case False
    show ?thesis
    proof (cases "filter (\<lambda>parent. Some (i_id parent) = parent_id item) items")
      case Nil
      with Suc.prems False show ?thesis by simp
    next
      case (Cons p ps)
      then have "p \<in> set (filter (\<lambda>parent. Some (i_id parent) = parent_id item) items)"
        by simp
      then have "p \<in> set items" by simp
      with Suc.prems have pt: "get_type a (content p) = None" by blast
      show ?thesis
      proof (cases n)
        case 0
        with Suc.prems False Cons show ?thesis by simp
      next
        case (Suc m)
        then have "get_item_type n a p items = Inr None"
          using Suc.IH[of p] pt Suc.prems(3) by simp
        with Suc.prems False Cons show ?thesis by simp
      qed
    qed
  qed
qed

lemma get_item_type_returns: "0 < n \<Longrightarrow> \<exists>t. get_item_type n a item items = Inr t"
  by (cases n) (auto simp: Let_def split: list.splits sum.splits)

lemma walk_result:
  "parent_walk a items chain \<Longrightarrow> walk_ends a items (last chain) \<Longrightarrow> length chain \<le> n
   \<Longrightarrow> get_item_type n a (hd chain) items = Inr (get_type a (content (last chain)))"
proof (induction a items chain arbitrary: n rule: parent_walk.induct)
  case (1 a items)
  then show ?case by simp
next
  case (2 a items x)
  then obtain m where n: "n = Suc m" by (cases n) auto
  from 2 show ?case unfolding n
    by (auto simp: walk_ends_def Let_def split: list.splits)
next
  case (3 a items x y rest)
  then obtain m where n: "n = Suc m" by (cases n) auto
  from 3 have "get_item_type m a y items = Inr (get_type a (content (last (y # rest))))"
    unfolding n by simp
  with 3 show ?case unfolding n by (auto simp: Let_def split: list.splits)
qed

lemma walk_cut:
  "parent_walk a items chain \<Longrightarrow> 0 < n \<Longrightarrow> n < length chain
   \<Longrightarrow> get_item_type n a (hd chain) items = Inr None"
proof (induction a items chain arbitrary: n rule: parent_walk.induct)
  case (1 a items)
  then show ?case by simp
next
  case (2 a items x)
  then show ?case by simp
next
  case (3 a items x y rest)
  then obtain m where n: "n = Suc m" by (cases n) auto
  show ?case
  proof (cases m)
    case 0
    with 3 show ?thesis unfolding n by (auto simp: Let_def split: list.splits)
  next
    case (Suc k)
    with 3 have "get_item_type m a y items = Inr None"
      unfolding n by (simp del: get_item_type.simps)
    with 3 show ?thesis unfolding n by (auto simp: Let_def split: list.splits)
  qed
qed

lemma get_type_ex [simp]:
  "get_type ex_args ''a'' = None" "get_type ex_args ''b'' = None"
  "get_type ex_args ''A'' = None" "get_type ex_args ''Task--'' = Some Sequential"
  by (simp_all add: get_type_def check_name_def strip_def is_space_def py_suffix_def
        ex_args_def)

text \<open>
  C9, as the code has it. Resolving an item's type always returns, and never with an
  error. Along a walk up the parent links (each parent looked up in the item list of the
  section): when the walk reaches, within the call depth \<open>n\<close> the interpreter allows, a
  node that has a tag, or no parent, or a parent that is not listed, the result is the tag
  of that node (\<open>None\<close> in the last two cases); when the walk is longer than \<open>n\<close>, as
  every walk on a cycle of untagged nodes is, the \<^verbatim>\<open>RecursionError\<close> is swallowed and the
  result is \<open>None\<close>.
\<close>

theorem get_item_type_walk:
  assumes "parent_walk a items chain" and "0 < n"
  shows "(\<exists>t. get_item_type n a (hd chain) items = Inr t)
       \<and> (length chain \<le> n \<and> walk_ends a items (last chain)
            \<longrightarrow> get_item_type n a (hd chain) items = Inr (get_type a (content (last chain))))
       \<and> (n < length chain \<longrightarrow> get_item_type n a (hd chain) items = Inr None)"
  using assms get_item_type_returns walk_result walk_cut by blast

theorem get_item_type_walk_witness:
  "parent_walk ex_args [seq_parent, seq_child] [seq_child, seq_parent]
   \<and> walk_ends ex_args [seq_parent, seq_child] seq_parent
   \<and> get_item_type 1000 ex_args seq_child [seq_parent, seq_child] = Inr (Some Sequential)
   \<and> parent_walk ex_args [cyc_a, cyc_b] [cyc_a, cyc_b, cyc_a, cyc_b]
   \<and> get_item_type 3 ex_args cyc_a [cyc_a, cyc_b] = Inr None"
proof -
  have w1: "parent_walk ex_args [seq_parent, seq_child] [seq_child, seq_parent]"
    by (simp add: seq_parent_def seq_child_def ex_item_def)
  have e1: "walk_ends ex_args [seq_parent, seq_child] seq_parent"
    by (simp add: walk_ends_def seq_parent_def ex_item_def)
  have w2: "parent_walk ex_args [cyc_a, cyc_b] [cyc_a, cyc_b, cyc_a, cyc_b]"
    by (simp add: cyc_a_def cyc_b_def ex_item_def)
  show ?thesis
    using get_item_type_walk [OF w1, of 1000] get_item_type_walk [OF w2, of 3] w1 w2 e1
    by (simp add: seq_parent_def ex_item_def)
qed

text \<open>
  C9 as the specification states it fails: on a cycle no structural error is reported.
  With the default limit of 1000 nested calls, the type of an item on a two-item cycle
  resolves to \<open>None\<close>.
\<close>

theorem get_item_type_cycle_no_error:
  "parent_id cyc_a = Some (i_id cyc_b) \<and> parent_id cyc_b = Some (i_id cyc_a)
   \<and> get_item_type 1000 ex_args cyc_a [cyc_a, cyc_b] = Inr None"
  using get_item_type_untagged [of 1000 ex_args cyc_a "[cyc_a, cyc_b]"]
  by (simp add: cyc_a_def cyc_b_def ex_item_def)

section \<open>Label operations, loops and gates: what they change\<close>

lemma nth_upd_field:
  assumes "\<And>x. f (g x) = f x"
  shows "f (xs[i := g (xs ! i)] ! j) = f (xs ! j)"
proof (cases "i < length xs")
  case True
  then show ?thesis using assms by (cases "i = j") simp_all
next
  case False
  then have "xs[i := g (xs ! i)] = xs" by (simp add: list_update_beyond)
  then show ?thesis by simp
qed

lemma tasks_add_label:
  "tasks (add_label i l s) =
     (tasks s)[i := (tasks s ! i)\<lparr>labels :=
        (if l \<in> set (labels (tasks s ! i)) then labels (tasks s ! i)
         else labels (tasks s ! i) @ [l])\<rparr>]"
  by (simp add: add_label_def Let_def)

lemma tasks_remove_label:
  "tasks (remove_label i l s) =
     (tasks s)[i := (tasks s ! i)\<lparr>labels := remove1 l (labels (tasks s ! i))\<rparr>]"
  by (simp add: remove_label_def Let_def remove1_idem)

lemma length_tasks_label [simp]:
  "length (tasks (add_label i l s)) = length (tasks s)"
  "length (tasks (remove_label i l s)) = length (tasks s)"
  by (simp_all add: tasks_add_label tasks_remove_label)

lemma add_label_fields [simp]:
  "content (tasks (add_label i l s) ! j) = content (tasks s ! j)"
  "is_completed (tasks (add_label i l s) ! j) = is_completed (tasks s ! j)"
  "parent_id (tasks (add_label i l s) ! j) = parent_id (tasks s ! j)"
  "i_id (tasks (add_label i l s) ! j) = i_id (tasks s ! j)"
  "due (tasks (add_label i l s) ! j) = due (tasks s ! j)"
  unfolding tasks_add_label
  by (rule nth_upd_field [where g = "\<lambda>x. x\<lparr>labels := _\<rparr>"], simp)+

lemma remove_label_fields [simp]:
  "content (tasks (remove_label i l s) ! j) = content (tasks s ! j)"
  "is_completed (tasks (remove_label i l s) ! j) = is_completed (tasks s ! j)"
  "parent_id (tasks (remove_label i l s) ! j) = parent_id (tasks s ! j)"
  "i_id (tasks (remove_label i l s) ! j) = i_id (tasks s ! j)"
  "due (tasks (remove_label i l s) ! j) = due (tasks s ! j)"
  unfolding tasks_remove_label
  by (rule nth_upd_field [where g = "\<lambda>x. x\<lparr>labels := _\<rparr>"], simp)+

lemma label_other_fields [simp]:
  "td (add_label i l s) = td s" "td (remove_label i l s) = td s"
  "sections (add_label i l s) = sections s" "sections (remove_label i l s) = sections s"
  "projects (add_label i l s) = projects s" "projects (remove_label i l s) = projects s"
  by (simp_all add: add_label_def remove_label_def Let_def)

lemma labels_add_label:
  "i < length (tasks s) \<Longrightarrow>
   labels (tasks (add_label i l s) ! j) =
     (if j = i \<and> l \<notin> set (labels (tasks s ! i)) then labels (tasks s ! i) @ [l]
      else labels (tasks s ! j))"
  by (cases "i = j") (auto simp: tasks_add_label)

lemma labels_remove_label:
  "i < length (tasks s) \<Longrightarrow>
   labels (tasks (remove_label i l s) ! j) =
     (if j = i then remove1 l (labels (tasks s ! i)) else labels (tasks s ! j))"
  by (cases "i = j") (auto simp: tasks_remove_label)

lemma has_label_add:
  "i < length (tasks s) \<Longrightarrow>
   has_label l' (add_label i l s) j = ((j = i \<and> l' = l) \<or> has_label l' s j)"
  by (auto simp: has_label_def labels_add_label)

lemma has_label_remove:
  "i < length (tasks s) \<Longrightarrow> distinct (labels (tasks s ! i)) \<Longrightarrow>
   has_label l' (remove_label i l s) j = (\<not> (j = i \<and> l' = l) \<and> has_label l' s j)"
  by (auto simp: has_label_def labels_remove_label)

lemma labels_ok_nth:
  "labels_ok s = (\<forall>j<length (tasks s). distinct (labels (tasks s ! j)))"
  by (simp add: labels_ok_def all_set_conv_all_nth)

lemma labels_ok_add [simp]: "labels_ok s \<Longrightarrow> labels_ok (add_label i l s)"
  by (cases "i < length (tasks s)") (auto simp: labels_ok_nth tasks_add_label nth_list_update)

lemma labels_ok_remove [simp]: "labels_ok s \<Longrightarrow> labels_ok (remove_label i l s)"
  by (cases "i < length (tasks s)") (auto simp: labels_ok_nth tasks_remove_label nth_list_update)

lemma has_label_remove_ok:
  "i < length (tasks s) \<Longrightarrow> labels_ok s \<Longrightarrow>
   has_label l' (remove_label i l s) j = (\<not> (j = i \<and> l' = l) \<and> has_label l' s j)"
  by (simp add: has_label_remove labels_ok_nth)

lemma live_children_label [simp]:
  "live_children (add_label i l s) cs = live_children s cs"
  "live_children (remove_label i l s) cs = live_children s cs"
  by (simp_all add: live_children_def)

lemma live_children_Cons:
  "live_children s (c # cs) =
     (if startswith_star (content (tasks s ! c)) then live_children s cs
      else c # live_children s cs)"
  by (simp add: live_children_def)

text \<open>pass_down when the item does not hold the label\<close>

lemma pass_down_idle:
  assumes "\<not> has_label l s i" "i < length (tasks s)" "\<forall>c\<in>set cs. c < length (tasks s) \<and> c \<noteq> i"
    "labels_ok s"
  shows "(\<forall>c\<in>set (live_children s cs). \<not> has_label l (pass_down l i cs s) c)
       \<and> (\<forall>j. j \<notin> set (live_children s cs) \<longrightarrow>
              labels (tasks (pass_down l i cs s) ! j) = labels (tasks s ! j))
       \<and> labels_ok (pass_down l i cs s) \<and> length (tasks (pass_down l i cs s)) = length (tasks s)"
  using assms
proof (induction cs arbitrary: s)
  case Nil
  then show ?case by (simp add: live_children_def)
next
  case (Cons c cs)
  show ?case
  proof (cases "startswith_star (content (tasks s ! c))")
    case True
    with Cons.IH[of s] Cons.prems show ?thesis by (simp add: live_children_Cons)
  next
    case False
    let ?s1 = "remove_label c l s"
    have c: "c < length (tasks s)" "c \<noteq> i" using Cons.prems by auto
    have nl: "\<not> has_label l ?s1 i" using Cons.prems c by (simp add: has_label_remove_ok)
    have IH: "(\<forall>c\<in>set (live_children ?s1 cs). \<not> has_label l (pass_down l i cs ?s1) c)
       \<and> (\<forall>j. j \<notin> set (live_children ?s1 cs) \<longrightarrow>
              labels (tasks (pass_down l i cs ?s1) ! j) = labels (tasks ?s1 ! j))
       \<and> labels_ok (pass_down l i cs ?s1) \<and> length (tasks (pass_down l i cs ?s1)) = length (tasks ?s1)"
      using Cons.IH[of ?s1] nl Cons.prems by simp
    have pd: "pass_down l i (c # cs) s = pass_down l i cs ?s1"
      using False Cons.prems(1) by (simp add: has_label_def)
    have c_after: "\<not> has_label l (pass_down l i cs ?s1) c"
    proof (cases "c \<in> set (live_children s cs)")
      case True then show ?thesis using IH by simp
    next
      case False
      then have "labels (tasks (pass_down l i cs ?s1) ! c) = labels (tasks ?s1 ! c)" using IH by simp
      moreover have "\<not> has_label l ?s1 c" using c Cons.prems by (simp add: has_label_remove_ok)
      ultimately show ?thesis by (simp add: has_label_def)
    qed
    show ?thesis unfolding pd using IH c_after False c
      by (auto simp: live_children_Cons labels_remove_label)
  qed
qed

text \<open>pass_down when the item holds the label\<close>

lemma pass_down_live:
  assumes "has_label l s i" "i < length (tasks s)"
    "\<forall>c\<in>set cs. c < length (tasks s) \<and> c \<noteq> i \<and> \<not> is_completed (tasks s ! c)"
    "distinct cs" "labels_ok s" "live_children s cs \<noteq> []"
  shows "has_label l (pass_down l i cs s) (hd (live_children s cs))
       \<and> \<not> has_label l (pass_down l i cs s) i
       \<and> (\<forall>c\<in>set (tl (live_children s cs)). \<not> has_label l (pass_down l i cs s) c)
       \<and> (\<forall>j. j \<noteq> i \<and> j \<notin> set (live_children s cs) \<longrightarrow>
              labels (tasks (pass_down l i cs s) ! j) = labels (tasks s ! j))"
  using assms
proof (induction cs arbitrary: s)
  case Nil
  then show ?case by (simp add: live_children_def)
next
  case (Cons c cs)
  show ?case
  proof (cases "startswith_star (content (tasks s ! c))")
    case True
    with Cons.IH[of s] Cons.prems show ?thesis by (simp add: live_children_Cons)
  next
    case False
    let ?s1 = "remove_label i l (add_label c l s)"
    have c: "c < length (tasks s)" "c \<noteq> i" "\<not> is_completed (tasks s ! c)" "c \<notin> set cs"
      using Cons.prems by auto
    have pd: "pass_down l i (c # cs) s = pass_down l i cs ?s1"
      using False Cons.prems(1) c by (simp add: has_label_def)
    have ok1: "labels_ok ?s1" using Cons.prems by simp
    have nl: "\<not> has_label l ?s1 i" using Cons.prems c
      by (simp add: has_label_remove_ok has_label_add)
    have hc: "has_label l ?s1 c" using Cons.prems c
      by (simp add: has_label_remove_ok has_label_add)
    have idle: "(\<forall>c\<in>set (live_children ?s1 cs). \<not> has_label l (pass_down l i cs ?s1) c)
       \<and> (\<forall>j. j \<notin> set (live_children ?s1 cs) \<longrightarrow>
              labels (tasks (pass_down l i cs ?s1) ! j) = labels (tasks ?s1 ! j))"
      using pass_down_idle[of l ?s1 i cs] nl ok1 Cons.prems by simp
    have lc: "live_children s (c # cs) = c # live_children s cs"
      using False by (simp add: live_children_Cons)
    have cnot: "c \<notin> set (live_children s cs)" using c by (simp add: live_children_def)
    have inot: "i \<notin> set (live_children s cs)" using Cons.prems by (auto simp: live_children_def)
    have "has_label l (pass_down l i cs ?s1) c" using idle cnot hc by (simp add: has_label_def)
    moreover have "\<not> has_label l (pass_down l i cs ?s1) i" using idle inot nl by (simp add: has_label_def)
    moreover have "\<forall>j. j \<noteq> i \<and> j \<notin> set (c # live_children s cs) \<longrightarrow>
              labels (tasks (pass_down l i cs ?s1) ! j) = labels (tasks s ! j)"
      using idle c Cons.prems(2) by (auto simp: labels_remove_label labels_add_label)
    ultimately show ?thesis unfolding pd lc using idle by simp
  qed
qed

lemma pass_down_no_live:
  "live_children s cs = [] \<Longrightarrow> pass_down l i cs s = s"
  by (induction cs) (auto simp: live_children_Cons split: if_splits)

text \<open>fan_out\<close>

lemma fan_out_result:
  assumes "\<forall>c\<in>set cs. c < length (tasks s) \<and> \<not> is_completed (tasks s ! c)"
  shows "(\<forall>c\<in>set (live_children s cs). has_label l (fan_out l cs s) c)
       \<and> (\<forall>j. j \<notin> set (live_children s cs) \<longrightarrow>
              labels (tasks (fan_out l cs s) ! j) = labels (tasks s ! j))
       \<and> (\<forall>j. has_label l s j \<longrightarrow> has_label l (fan_out l cs s) j)"
  using assms
proof (induction cs arbitrary: s)
  case Nil
  then show ?case by (simp add: live_children_def)
next
  case (Cons c cs)
  show ?case
  proof (cases "startswith_star (content (tasks s ! c))")
    case True
    with Cons.IH[of s] Cons.prems show ?thesis by (simp add: live_children_Cons)
  next
    case False
    let ?s1 = "add_label c l s"
    have c: "c < length (tasks s)" "\<not> is_completed (tasks s ! c)" using Cons.prems by auto
    have fo: "fan_out l (c # cs) s = fan_out l cs ?s1" using False c by simp
    have IH: "(\<forall>c\<in>set (live_children ?s1 cs). has_label l (fan_out l cs ?s1) c)
       \<and> (\<forall>j. j \<notin> set (live_children ?s1 cs) \<longrightarrow>
              labels (tasks (fan_out l cs ?s1) ! j) = labels (tasks ?s1 ! j))
       \<and> (\<forall>j. has_label l ?s1 j \<longrightarrow> has_label l (fan_out l cs ?s1) j)"
      using Cons.IH[of ?s1] Cons.prems by simp
    have "has_label l ?s1 c" using c by (simp add: has_label_add)
    then have "has_label l (fan_out l cs ?s1) c" using IH by blast
    moreover have "\<forall>j. has_label l s j \<longrightarrow> has_label l (fan_out l cs ?s1) j"
      using IH c by (simp add: has_label_add)
    moreover have "\<forall>j. j \<notin> set (c # live_children s cs) \<longrightarrow>
              labels (tasks (fan_out l cs ?s1) ! j) = labels (tasks s ! j)"
      using IH c by (auto simp: labels_add_label)
    ultimately show ?thesis unfolding fo using IH False by (simp add: live_children_Cons)
  qed
qed

lemma same_frame_refl [simp]: "same_frame s s"
  by (simp add: same_frame_def)

lemma same_frame_trans: "same_frame s s1 \<Longrightarrow> same_frame s1 s2 \<Longrightarrow> same_frame s s2"
  by (simp add: same_frame_def)

lemma skel_upd_labels: "skel (x\<lparr>labels := ls\<rparr>) = skel x"
  by (simp add: skel_def)

lemma same_frame_add [simp]: "same_frame s (add_label i l s)"
  unfolding same_frame_def tasks_add_label
  by (simp add: nth_upd_field [where f = skel and g = "\<lambda>x. x\<lparr>labels := _\<rparr>"] skel_upd_labels)

lemma same_frame_remove [simp]: "same_frame s (remove_label i l s)"
  unfolding same_frame_def tasks_remove_label
  by (simp add: nth_upd_field [where f = skel and g = "\<lambda>x. x\<lparr>labels := _\<rparr>"] skel_upd_labels)

lemma skel_fields:
  "content (skel x) = content x" "is_completed (skel x) = is_completed x"
  "parent_id (skel x) = parent_id x" "i_id (skel x) = i_id x" "due (skel x) = due x"
  "section_id (skel x) = section_id x" "project_id (skel x) = project_id x"
  "i_order (skel x) = i_order x"
  by (simp_all add: skel_def)

lemma item_eqI: "skel x = skel y \<Longrightarrow> labels x = labels y \<Longrightarrow> x = y"
proof -
  assume a: "skel x = skel y" and b: "labels x = labels y"
  have "x = (skel x)\<lparr>labels := labels x\<rparr>" by (simp add: skel_def)
  also have "\<dots> = (skel y)\<lparr>labels := labels y\<rparr>" using a b by simp
  also have "\<dots> = y" by (simp add: skel_def)
  finally show ?thesis .
qed

lemma frame_fields:
  assumes "same_frame s s'"
  shows "content (tasks s' ! j) = content (tasks s ! j)"
    "is_completed (tasks s' ! j) = is_completed (tasks s ! j)"
    "parent_id (tasks s' ! j) = parent_id (tasks s ! j)"
    "i_id (tasks s' ! j) = i_id (tasks s ! j)"
    "due (tasks s' ! j) = due (tasks s ! j)"
    "section_id (tasks s' ! j) = section_id (tasks s ! j)"
    "project_id (tasks s' ! j) = project_id (tasks s ! j)"
    "i_order (tasks s' ! j) = i_order (tasks s ! j)"
    "length (tasks s') = length (tasks s)"
proof -
  have e: "skel (tasks s' ! j) = skel (tasks s ! j)" using assms by (simp add: same_frame_def)
  show "content (tasks s' ! j) = content (tasks s ! j)"
    using arg_cong [OF e, of content] by (simp add: skel_fields)
  show "is_completed (tasks s' ! j) = is_completed (tasks s ! j)"
    using arg_cong [OF e, of is_completed] by (simp add: skel_fields)
  show "parent_id (tasks s' ! j) = parent_id (tasks s ! j)"
    using arg_cong [OF e, of parent_id] by (simp add: skel_fields)
  show "i_id (tasks s' ! j) = i_id (tasks s ! j)"
    using arg_cong [OF e, of i_id] by (simp add: skel_fields)
  show "due (tasks s' ! j) = due (tasks s ! j)"
    using arg_cong [OF e, of due] by (simp add: skel_fields)
  show "section_id (tasks s' ! j) = section_id (tasks s ! j)"
    using arg_cong [OF e, of section_id] by (simp add: skel_fields)
  show "project_id (tasks s' ! j) = project_id (tasks s ! j)"
    using arg_cong [OF e, of project_id] by (simp add: skel_fields)
  show "i_order (tasks s' ! j) = i_order (tasks s ! j)"
    using arg_cong [OF e, of i_order] by (simp add: skel_fields)
  show "length (tasks s') = length (tasks s)" using assms by (simp add: same_frame_def)
qed

text \<open>What the label loops keep: the frame, the label lists free of duplicates, td.\<close>

lemma keeps_refl [simp]: "keeps l s s"
  by (simp add: keeps_def)

lemma keeps_trans: "keeps l s s1 \<Longrightarrow> keeps l s1 s2 \<Longrightarrow> keeps l s s2"
  by (simp add: keeps_def same_frame_def)

lemma set_remove1_minus: "set (remove1 l xs) - {l} = set xs - {l}"
proof
  show "set (remove1 l xs) - {l} \<subseteq> set xs - {l}"
    using set_remove1_subset [of l xs] by auto
  show "set xs - {l} \<subseteq> set (remove1 l xs) - {l}"
    by (auto simp: in_set_remove1)
qed

lemma other_labels_add:
  "set (labels (tasks (add_label i l s) ! j)) - {l} = set (labels (tasks s ! j)) - {l}"
proof (cases "i < length (tasks s)")
  case True
  then show ?thesis by (cases "i = j") (auto simp: tasks_add_label)
next
  case False
  then show ?thesis by (simp add: tasks_add_label list_update_beyond)
qed

lemma other_labels_remove:
  "set (labels (tasks (remove_label i l s) ! j)) - {l} = set (labels (tasks s ! j)) - {l}"
proof (cases "i < length (tasks s)")
  case True
  then show ?thesis by (cases "i = j") (simp_all add: tasks_remove_label set_remove1_minus)
next
  case False
  then show ?thesis by (simp add: tasks_remove_label list_update_beyond)
qed

lemma keeps_add [simp]: "keeps l s (add_label i l s)"
  by (simp add: keeps_def other_labels_add)

lemma keeps_remove [simp]: "keeps l s (remove_label i l s)"
  by (simp add: keeps_def other_labels_remove)

lemma keeps_td [simp]: "keeps l s (s\<lparr>td := t\<rparr>)"
  by (simp add: keeps_def same_frame_def labels_ok_def)

lemma keeps_pass_down: "keeps l s (pass_down l i cs s)"
proof (induction cs arbitrary: s)
  case Nil
  then show ?case by simp
next
  case (Cons c cs)
  have a: "keeps l s (remove_label i l (add_label c l s))"
    by (rule keeps_trans [OF keeps_add keeps_remove])
  have b: "keeps l s (remove_label c l s)" by simp
  show ?case
    using Cons.IH [of s] keeps_trans [OF a Cons.IH [of "remove_label i l (add_label c l s)"]]
      keeps_trans [OF b Cons.IH [of "remove_label c l s"]]
    by simp
qed

lemma keeps_fan_out: "keeps l s (fan_out l cs s)"
proof (induction cs arbitrary: s)
  case Nil
  then show ?case by simp
next
  case (Cons c cs)
  show ?case
    using Cons.IH [of s] keeps_trans [OF keeps_add Cons.IH [of "add_label c l s"]]
    by simp
qed

lemma keeps_remove_from_children: "keeps l s (remove_from_children l cs s)"
  unfolding remove_from_children_def
proof (induction cs arbitrary: s)
  case Nil
  then show ?case by simp
next
  case (Cons c cs)
  show ?case using keeps_trans [OF keeps_remove Cons.IH [of "remove_label c l s"]] by simp
qed

lemma keeps_label_children: "keeps l s (label_children l hts i cs s)"
proof -
  have "keeps l s (fan_out l cs (remove_label i l s))"
    by (rule keeps_trans [OF keeps_remove keeps_fan_out])
  then show ?thesis
    unfolding label_children_def Let_def using keeps_pass_down [of l s i cs] by simp
qed

lemma label_root_state:
  "snd (snd (label_root l it st pt i (ffs, ffp, s))) = s
   \<or> snd (snd (label_root l it st pt i (ffs, ffp, s))) = add_label i l s"
  by (simp add: label_root_def Let_def)

lemma keeps_label_root:
  "label_root l it st pt i (ffs, ffp, s) = (f1, f2, s1) \<Longrightarrow> keeps l s s1"
  using label_root_state [of l it st pt i ffs ffp s] by auto

lemma labels_add_other: "j \<noteq> c \<Longrightarrow> labels (tasks (add_label c l s) ! j) = labels (tasks s ! j)"
  by (simp add: tasks_add_label)

lemma labels_remove_subset:
  "set (labels (tasks (remove_label c l s) ! j)) \<subseteq> set (labels (tasks s ! j))"
proof (cases "c < length (tasks s)")
  case True
  then show ?thesis
    using set_remove1_subset [of l "labels (tasks s ! j)"]
    by (cases "c = j") (auto simp: tasks_remove_label)
next
  case False
  then show ?thesis by (simp add: tasks_remove_label list_update_beyond)
qed

lemma remove_from_children_subset:
  "set (labels (tasks (remove_from_children l cs s) ! j)) \<subseteq> set (labels (tasks s ! j))"
  unfolding remove_from_children_def
proof (induction cs arbitrary: s)
  case Nil
  then show ?case by simp
next
  case (Cons c cs)
  show ?case using Cons.IH [of "remove_label c l s"] labels_remove_subset [of c l s j] by auto
qed

lemma remove_from_children_clears:
  "labels_ok s \<Longrightarrow> \<forall>c\<in>set cs. c < length (tasks s)
   \<Longrightarrow> \<forall>c\<in>set cs. \<not> has_label l (remove_from_children l cs s) c"
  unfolding remove_from_children_def
proof (induction cs arbitrary: s)
  case Nil
  then show ?case by simp
next
  case (Cons c cs)
  let ?s1 = "remove_label c l s"
  have 1: "\<forall>x\<in>set cs. \<not> has_label l (foldl (\<lambda>s c. remove_label c l s) ?s1 cs) x"
    using Cons.IH [of ?s1] Cons.prems by simp
  have "\<not> has_label l ?s1 c" using Cons.prems by (simp add: has_label_remove_ok)
  then have "\<not> has_label l (foldl (\<lambda>s c. remove_label c l s) ?s1 cs) c"
    using remove_from_children_subset [of l cs ?s1 c]
    by (auto simp: has_label_def remove_from_children_def)
  with 1 show ?case by simp
qed

text \<open>No loop gives the label to an item whose title starts with the header flag.\<close>

lemma pass_down_header:
  "startswith_star (content (tasks s ! j)) \<Longrightarrow> j \<noteq> i
   \<Longrightarrow> set (labels (tasks (pass_down l i cs s) ! j)) \<subseteq> set (labels (tasks s ! j))"
proof (induction cs arbitrary: s)
  case Nil
  then show ?case by simp
next
  case (Cons c cs)
  show ?case
  proof (cases "startswith_star (content (tasks s ! c))")
    case True
    with Cons show ?thesis by simp
  next
    case False
    then have cj: "c \<noteq> j" using Cons.prems by auto
    show ?thesis
    proof (cases "\<not> is_completed (tasks s ! c) \<and> l \<in> set (labels (tasks s ! i))")
      case True
      let ?s1 = "remove_label i l (add_label c l s)"
      have "set (labels (tasks (pass_down l i cs ?s1) ! j)) \<subseteq> set (labels (tasks ?s1 ! j))"
        using Cons.IH [of ?s1] Cons.prems by simp
      also have "\<dots> \<subseteq> set (labels (tasks (add_label c l s) ! j))"
        by (rule labels_remove_subset)
      also have "\<dots> = set (labels (tasks s ! j))" using cj by (simp add: labels_add_other)
      finally show ?thesis using True False by simp
    next
      case nt: False
      let ?s1 = "remove_label c l s"
      have "set (labels (tasks (pass_down l i cs ?s1) ! j)) \<subseteq> set (labels (tasks ?s1 ! j))"
        using Cons.IH [of ?s1] Cons.prems by simp
      also have "\<dots> \<subseteq> set (labels (tasks s ! j))" by (rule labels_remove_subset)
      finally show ?thesis using nt False by auto
    qed
  qed
qed

lemma fan_out_header:
  "startswith_star (content (tasks s ! j))
   \<Longrightarrow> labels (tasks (fan_out l cs s) ! j) = labels (tasks s ! j)"
proof (induction cs arbitrary: s)
  case Nil
  then show ?case by simp
next
  case (Cons c cs)
  show ?case
  proof (cases "startswith_star (content (tasks s ! c))")
    case True
    with Cons show ?thesis by simp
  next
    case False
    then have cj: "c \<noteq> j" using Cons.prems by auto
    have "labels (tasks (fan_out l cs (add_label c l s)) ! j) = labels (tasks (add_label c l s) ! j)"
      using Cons.IH [of "add_label c l s"] Cons.prems by simp
    with cj Cons.IH [of s] Cons.prems show ?thesis by (simp add: labels_add_other)
  qed
qed

lemma label_children_header:
  assumes "startswith_star (content (tasks s ! j))" "j \<noteq> i"
  shows "set (labels (tasks (label_children l hts i cs s) ! j)) \<subseteq> set (labels (tasks s ! j))"
proof -
  have "labels (tasks (fan_out l cs (remove_label i l s)) ! j) = labels (tasks (remove_label i l s) ! j)"
    using assms by (simp add: fan_out_header)
  then have "set (labels (tasks (fan_out l cs (remove_label i l s)) ! j)) \<subseteq> set (labels (tasks s ! j))"
    using labels_remove_subset [of i l s j] by simp
  then show ?thesis
    unfolding label_children_def Let_def using pass_down_header [OF assms, of l cs] by simp
qed

text \<open>The gates only remove labels, and keep the frame.\<close>

lemma hide_future_gate_props:
  "set (labels (tasks (snd (hide_future_gate l a e i s)) ! j)) \<subseteq> set (labels (tasks s ! j))"
  "keeps l s (snd (hide_future_gate l a e i s))"
  using labels_remove_subset [of i l s j]
  by (auto simp: hide_future_gate_def Let_def split: option.splits)

lemma start_date_gate_props:
  "set (labels (tasks (snd (start_date_gate l a e i cs s)) ! j)) \<subseteq> set (labels (tasks s ! j))"
  "keeps l s (snd (start_date_gate l a e i cs s))"
proof -
  have a: "set (labels (tasks (remove_from_children l cs (remove_label i l s)) ! j))
             \<subseteq> set (labels (tasks s ! j))"
    using remove_from_children_subset [of l cs "remove_label i l s" j]
      labels_remove_subset [of i l s j] by blast
  have b: "keeps l s (remove_from_children l cs (remove_label i l s))"
    by (rule keeps_trans [OF keeps_remove keeps_remove_from_children])
  show "set (labels (tasks (snd (start_date_gate l a e i cs s)) ! j)) \<subseteq> set (labels (tasks s ! j))"
    using a by (auto simp: start_date_gate_def Let_def split: option.splits)
  show "keeps l s (snd (start_date_gate l a e i cs s))"
    using b by (auto simp: start_date_gate_def Let_def split: option.splits)
qed

lemma apply_offset_cases:
  "apply_offset l e i cs d t s = s\<lparr>td := Some t\<rparr>
   \<or> apply_offset l e i cs d t s = remove_from_children l cs (remove_label i l (s\<lparr>td := Some t\<rparr>))"
  by (simp add: apply_offset_def Let_def)

lemma due_offset_gate_cases:
  "due_offset_gate l a e i cs s = s
   \<or> (\<exists>d t. due_offset_gate l a e i cs s = apply_offset l e i cs d t s)"
  by (auto simp: due_offset_gate_def split: option.splits)

lemma apply_offset_props:
  "set (labels (tasks (apply_offset l e i cs d t s) ! j)) \<subseteq> set (labels (tasks s ! j))"
  "keeps l s (apply_offset l e i cs d t s)"
proof -
  let ?r = "remove_from_children l cs (remove_label i l (s\<lparr>td := Some t\<rparr>))"
  have a: "set (labels (tasks ?r ! j)) \<subseteq> set (labels (tasks s ! j))"
    using remove_from_children_subset [of l cs "remove_label i l (s\<lparr>td := Some t\<rparr>)" j]
      labels_remove_subset [of i l "s\<lparr>td := Some t\<rparr>" j] by auto
  have b: "keeps l s ?r"
    by (rule keeps_trans [OF keeps_td keeps_trans [OF keeps_remove keeps_remove_from_children]])
  show "set (labels (tasks (apply_offset l e i cs d t s) ! j)) \<subseteq> set (labels (tasks s ! j))"
    using a apply_offset_cases [of l e i cs d t s] by auto
  show "keeps l s (apply_offset l e i cs d t s)"
    using b apply_offset_cases [of l e i cs d t s] by auto
qed

lemma due_offset_gate_props:
  "set (labels (tasks (due_offset_gate l a e i cs s) ! j)) \<subseteq> set (labels (tasks s ! j))"
  "keeps l s (due_offset_gate l a e i cs s)"
proof -
  show "set (labels (tasks (due_offset_gate l a e i cs s) ! j)) \<subseteq> set (labels (tasks s ! j))"
    using due_offset_gate_cases [of l a e i cs s] apply_offset_props(1) by fastforce
  show "keeps l s (due_offset_gate l a e i cs s)"
    using due_offset_gate_cases [of l a e i cs s] apply_offset_props(2) by auto
qed

lemma gates_props:
  "set (labels (tasks (gates l a e i cs s) ! j)) \<subseteq> set (labels (tasks s ! j))"
  "keeps l s (gates l a e i cs s)"
proof -
  obtain b1 s1 where h: "hide_future_gate l a e i s = (b1, s1)"
    by (cases "hide_future_gate l a e i s")
  obtain b2 s2 where g: "start_date_gate l a e i cs s1 = (b2, s2)"
    by (cases "start_date_gate l a e i cs s1")
  have h1: "set (labels (tasks s1 ! j)) \<subseteq> set (labels (tasks s ! j))" "keeps l s s1"
    using hide_future_gate_props(1) [where l = l and a = a and e = e and i = i and s = s and j = j]
      hide_future_gate_props(2) [where l = l and a = a and e = e and i = i and s = s] h
    by simp_all
  have g1: "set (labels (tasks s2 ! j)) \<subseteq> set (labels (tasks s1 ! j))" "keeps l s1 s2"
    using start_date_gate_props(1) [where l = l and a = a and e = e and i = i and s = s1
        and j = j and cs = cs]
      start_date_gate_props(2) [where l = l and a = a and e = e and i = i and s = s1 and cs = cs]
      g by simp_all
  have d1: "set (labels (tasks (due_offset_gate l a e i cs s2) ! j)) \<subseteq> set (labels (tasks s2 ! j))"
    "keeps l s2 (due_offset_gate l a e i cs s2)"
    by (rule due_offset_gate_props)+
  have gs: "gates l a e i cs s = (if b1 then s1 else if b2 then s2 else due_offset_gate l a e i cs s2)"
    by (simp add: gates_def h g)
  show "set (labels (tasks (gates l a e i cs s) ! j)) \<subseteq> set (labels (tasks s ! j))"
    unfolding gs using h1(1) g1(1) d1(1) by auto
  show "keeps l s (gates l a e i cs s)"
    unfolding gs using h1(2) keeps_trans [OF h1(2) g1(2)]
      keeps_trans [OF h1(2) keeps_trans [OF g1(2) d1(2)]] by simp
qed

lemma child_items_of_props:
  "set (child_items_of ts items i) \<subseteq> set items"
  "c \<in> set (child_items_of ts items i) \<Longrightarrow> \<not> is_completed (ts ! c)"
  "c \<in> set (child_items_of ts items i) \<Longrightarrow> parent_id (ts ! c) = Some (i_id (ts ! i))"
  "distinct items \<Longrightarrow> distinct (child_items_of ts items i)"
  by (auto simp: child_items_of_def)

lemma child_items_of_not_self:
  "parent_id (ts ! i) \<noteq> Some (i_id (ts ! i)) \<Longrightarrow> i \<notin> set (child_items_of ts items i)"
  by (auto simp: child_items_of_def)

lemma child_side:
  assumes "\<forall>x\<in>set items. x < length (tasks s)" "distinct items"
    "parent_id (tasks s ! i) \<noteq> Some (i_id (tasks s ! i))"
  shows "\<forall>c\<in>set (child_items_of (tasks s) items i).
           c < length (tasks s) \<and> c \<noteq> i \<and> \<not> is_completed (tasks s ! c)"
    and "distinct (child_items_of (tasks s) items i)"
  using assms child_items_of_props [where ts = "tasks s" and items = items and i = i]
    child_items_of_not_self [where ts = "tasks s" and items = items and i = i]
  by auto

lemma label_item_live:
  assumes "\<not> is_completed (tasks s ! i)" "\<not> startswith_star (content (tasks s ! i))"
    "label_item l a e sty pty items i cs (ffs, ffp, s) = Inr (f1, f2, s')"
  obtains item_type s1 where
    "get_item_type (recursion_limit e) a (tasks s ! i) (map (\<lambda>j. tasks s ! j) items) = Inr item_type"
    "label_root l item_type sty pty i (ffs, ffp, s) = (f1, f2, s1)"
    "s' = gates l a e i cs (label_children l [item_type, sty, pty] i cs s1)"
proof -
  from assms obtain item_type where
    t: "get_item_type (recursion_limit e) a (tasks s ! i) (map (\<lambda>j. tasks s ! j) items) = Inr item_type"
    by (auto simp: label_item_def split: sum.splits)
  obtain g1 g2 s1 where r: "label_root l item_type sty pty i (ffs, ffp, s) = (g1, g2, s1)"
    by (cases "label_root l item_type sty pty i (ffs, ffp, s)") auto
  from assms t r have "f1 = g1" "f2 = g2"
    "s' = gates l a e i cs (label_children l [item_type, sty, pty] i cs s1)"
    by (auto simp: label_item_def)
  with t r that show ?thesis by blast
qed

text \<open>the labelling of an item gives the label to no header\<close>

lemma label_root_header:
  assumes "label_root l it st pt i (ffs, ffp, s) = (f1, f2, s1)" "j \<noteq> i"
  shows "labels (tasks s1 ! j) = labels (tasks s ! j)"
  using label_root_state [of l it st pt i ffs ffp s] assms by (auto simp: labels_add_other)

lemma label_item_header_no_gain:
  assumes "startswith_star (content (tasks s ! j))"
    and "label_item l a e sty pty items i cs (ffs, ffp, s) = Inr (f1, f2, s')"
  shows "set (labels (tasks s' ! j)) \<subseteq> set (labels (tasks s ! j))"
proof (cases "is_completed (tasks s ! i)")
  case True
  with assms show ?thesis by (simp add: label_item_def)
next
  case nc: False
  show ?thesis
  proof (cases "startswith_star (content (tasks s ! i))")
    case True
    with nc assms(2) have "s' = remove_label i l s" by (simp add: label_item_def)
    then show ?thesis using labels_remove_subset [of i l s j] by simp
  next
    case False
    then have ji: "j \<noteq> i" using assms(1) by auto
    from label_item_live [OF nc False assms(2)] obtain item_type s1 where
      r: "label_root l item_type sty pty i (ffs, ffp, s) = (f1, f2, s1)"
      and s': "s' = gates l a e i cs (label_children l [item_type, sty, pty] i cs s1)"
      by blast
    have 1: "labels (tasks s1 ! j) = labels (tasks s ! j)" by (rule label_root_header [OF r ji])
    have "content (tasks s1 ! j) = content (tasks s ! j)"
      using frame_fields(1) [of s s1 j] keeps_label_root [OF r] by (simp add: keeps_def)
    then have h1: "startswith_star (content (tasks s1 ! j))" using assms(1) by simp
    have 2: "set (labels (tasks (label_children l [item_type, sty, pty] i cs s1) ! j))
              \<subseteq> set (labels (tasks s1 ! j))"
      by (rule label_children_header [OF h1 ji])
    have "set (labels (tasks s' ! j))
            \<subseteq> set (labels (tasks (label_children l [item_type, sty, pty] i cs s1) ! j))"
      unfolding s' by (rule gates_props(1))
    also note 2
    also have "set (labels (tasks s1 ! j)) = set (labels (tasks s ! j))" using 1 by simp
    finally show ?thesis .
  qed
qed

section \<open>The pass over a project\<close>

lemma for_each_invariant:
  assumes "for_each f xs s = Inr s'" and "P s"
    and "\<And>x s s'. x \<in> set xs \<Longrightarrow> P s \<Longrightarrow> f x s = Inr s' \<Longrightarrow> P s'"
  shows "P s'"
  using assms
proof (induction xs arbitrary: s)
  case Nil
  then show ?case by simp
next
  case (Cons x xs)
  from Cons.prems(1) obtain s1 where s1: "f x s = Inr s1" "for_each f xs s1 = Inr s'"
    by (auto split: sum.splits)
  have "P s1" using Cons.prems(3) [of x s s1] Cons.prems(2) s1(1) by simp
  moreover have "\<And>z t t'. z \<in> set xs \<Longrightarrow> P t \<Longrightarrow> f z t = Inr t' \<Longrightarrow> P t'"
    using Cons.prems(3) by (meson list.set_intros(2))
  ultimately show ?case using Cons.IH [OF s1(2)] by blast
qed

lemma for_each_reaches:
  assumes "for_each f xs s = Inr s'" and "P s" and "x \<in> set xs"
    and "\<And>y s s'. y \<in> set xs \<Longrightarrow> P s \<Longrightarrow> f y s = Inr s' \<Longrightarrow> P s' \<and> (Q s \<longrightarrow> Q s')"
    and "\<And>s s'. P s \<Longrightarrow> f x s = Inr s' \<Longrightarrow> Q s'"
  shows "Q s'"
  using assms
proof (induction xs arbitrary: s)
  case Nil
  then show ?case by simp
next
  case (Cons y ys)
  from Cons.prems(1) obtain s1 where s1: "f y s = Inr s1" "for_each f ys s1 = Inr s'"
    by (auto split: sum.splits)
  have P1: "P s1" using Cons.prems(4) [of y s s1] Cons.prems(2) s1(1) by simp
  have step: "\<And>z t t'. z \<in> set ys \<Longrightarrow> P t \<Longrightarrow> f z t = Inr t' \<Longrightarrow> P t' \<and> (Q t \<longrightarrow> Q t')"
    using Cons.prems(4) by (meson list.set_intros(2))
  show ?case
  proof (cases "x \<in> set ys")
    case True
    show ?thesis by (rule Cons.IH [OF s1(2) P1 True step Cons.prems(5)])
  next
    case False
    with Cons.prems(3) have "x = y" by simp
    with Cons.prems(5) [of s s1] Cons.prems(2) s1(1) have "Q s1" by simp
    moreover have "P s' \<and> (Q s1 \<longrightarrow> Q s')"
      by (rule for_each_invariant [OF s1(2), where P = "\<lambda>t. P t \<and> (Q s1 \<longrightarrow> Q t)"])
        (use P1 step in auto)
    ultimately show ?thesis by simp
  qed
qed

lemma ty_cases: "(t::ty) = Parallel \<or> t = Sequential \<or> t = P_S \<or> t = S_P"
  by (cases t) simp_all

lemma label_root_char:
  "label_root l it st pt i (ffs, ffp, s) =
     (if parent_id (tasks s ! i) = None
      then (ffs \<or> st \<noteq> None, ffp \<or> pt \<noteq> None,
            if root_gets_label it st pt ffs ffp then add_label i l s else s)
      else (ffs, ffp, s))"
proof (cases "parent_id (tasks s ! i)")
  case (Some p)
  then show ?thesis by (simp add: label_root_def)
next
  case None
  show ?thesis
  proof (cases it)
    case (Some t)
    with None show ?thesis by (simp add: label_root_def root_gets_label_def)
  next
    case itN: None
    show ?thesis
    proof (cases st)
      case (Some t)
      with None itN show ?thesis
        by (cases t) (simp_all add: label_root_def root_gets_label_def)
    next
      case stN: None
      show ?thesis
      proof (cases pt)
        case None
        with \<open>parent_id (tasks s ! i) = None\<close> itN stN show ?thesis
          by (simp add: label_root_def root_gets_label_def)
      next
        case (Some t)
        with None itN stN show ?thesis
          by (cases t) (simp_all add: label_root_def root_gets_label_def)
      qed
    qed
  qed
qed

lemma labels_remove_other: "j \<noteq> c \<Longrightarrow> labels (tasks (remove_label c l s) ! j) = labels (tasks s ! j)"
  by (simp add: tasks_remove_label)

lemma pass_down_outside:
  "j \<noteq> i \<Longrightarrow> j \<notin> set cs \<Longrightarrow> labels (tasks (pass_down l i cs s) ! j) = labels (tasks s ! j)"
  by (induction cs arbitrary: s) (auto simp: labels_remove_other labels_add_other)

lemma fan_out_outside:
  "j \<notin> set cs \<Longrightarrow> labels (tasks (fan_out l cs s) ! j) = labels (tasks s ! j)"
  by (induction cs arbitrary: s) (auto simp: labels_add_other)

lemma remove_from_children_outside:
  "j \<notin> set cs \<Longrightarrow> labels (tasks (remove_from_children l cs s) ! j) = labels (tasks s ! j)"
  unfolding remove_from_children_def
  by (induction cs arbitrary: s) (auto simp: labels_remove_other)

lemma label_children_outside:
  "j \<noteq> i \<Longrightarrow> j \<notin> set cs
   \<Longrightarrow> labels (tasks (label_children l hts i cs s) ! j) = labels (tasks s ! j)"
  by (simp add: label_children_def Let_def pass_down_outside fan_out_outside labels_remove_other)

lemma pass_down_self:
  "i \<notin> set cs \<Longrightarrow> set (labels (tasks (pass_down l i cs s) ! i)) \<subseteq> set (labels (tasks s ! i))"
proof (induction cs arbitrary: s)
  case Nil
  then show ?case by simp
next
  case (Cons c cs)
  then have ci: "i \<noteq> c" "i \<notin> set cs" by auto
  have a: "set (labels (tasks (remove_label i l (add_label c l s)) ! i)) \<subseteq> set (labels (tasks s ! i))"
    using labels_remove_subset [of i l "add_label c l s" i] ci by (simp add: labels_add_other)
  have b: "set (labels (tasks (remove_label c l s) ! i)) \<subseteq> set (labels (tasks s ! i))"
    by (rule labels_remove_subset)
  show ?case
    using Cons.IH [OF ci(2), of s] Cons.IH [OF ci(2), of "remove_label i l (add_label c l s)"]
      Cons.IH [OF ci(2), of "remove_label c l s"] a b
    by (auto simp del: add_label_fields remove_label_fields)
qed

lemma label_children_self:
  assumes "i \<notin> set cs"
  shows "set (labels (tasks (label_children l hts i cs s) ! i)) \<subseteq> set (labels (tasks s ! i))"
proof -
  have "labels (tasks (fan_out l cs (remove_label i l s)) ! i)
        = labels (tasks (remove_label i l s) ! i)"
    using assms by (rule fan_out_outside)
  then have "set (labels (tasks (fan_out l cs (remove_label i l s)) ! i))
        \<subseteq> set (labels (tasks s ! i))"
    using labels_remove_subset [of i l s i] by simp
  then show ?thesis
    using pass_down_self [OF assms, of l s] by (simp add: label_children_def Let_def)
qed

lemma gates_outside:
  assumes "j \<noteq> i" "j \<notin> set cs"
  shows "labels (tasks (gates l a e i cs s) ! j) = labels (tasks s ! j)"
proof -
  have r: "\<And>t. labels (tasks (remove_from_children l cs (remove_label i l t)) ! j)
             = labels (tasks t ! j)"
    using assms by (simp add: remove_from_children_outside labels_remove_other)
  have h: "labels (tasks (snd (hide_future_gate l a e i s)) ! j) = labels (tasks s ! j)"
    using assms by (auto simp: hide_future_gate_def Let_def labels_remove_other split: option.splits)
  have st: "\<And>t. labels (tasks (snd (start_date_gate l a e i cs t)) ! j) = labels (tasks t ! j)"
    using r by (auto simp: start_date_gate_def Let_def split: option.splits)
  have ao: "\<And>d u t. labels (tasks (apply_offset l e i cs d u t) ! j) = labels (tasks t ! j)"
  proof -
    fix d u t
    show "labels (tasks (apply_offset l e i cs d u t) ! j) = labels (tasks t ! j)"
      using apply_offset_cases [of l e i cs d u t] r [of "t\<lparr>td := Some u\<rparr>"] by auto
  qed
  have dg: "\<And>t. labels (tasks (due_offset_gate l a e i cs t) ! j) = labels (tasks t ! j)"
  proof -
    fix t
    show "labels (tasks (due_offset_gate l a e i cs t) ! j) = labels (tasks t ! j)"
      using due_offset_gate_cases [of l a e i cs t] ao by auto
  qed
  obtain b1 s1 where h1: "hide_future_gate l a e i s = (b1, s1)"
    by (cases "hide_future_gate l a e i s")
  obtain b2 s2 where g1: "start_date_gate l a e i cs s1 = (b2, s2)"
    by (cases "start_date_gate l a e i cs s1")
  have gs: "gates l a e i cs s = (if b1 then s1 else if b2 then s2 else due_offset_gate l a e i cs s2)"
    by (simp add: gates_def h1 g1)
  have 1: "labels (tasks s1 ! j) = labels (tasks s ! j)" using h h1 by simp
  have 2: "labels (tasks s2 ! j) = labels (tasks s1 ! j)" using st [of s1] g1 by simp
  show ?thesis unfolding gs using 1 2 dg [of s2] by simp
qed

text \<open>The labelling of an item, seen from outside.\<close>

lemma label_item_cases:
  assumes "label_item l a e st pt items i cs (ffs, ffp, s) = Inr (f1, f2, s')"
  obtains (skip) "is_completed (tasks s ! i)" "s' = s" "f1 = ffs" "f2 = ffp"
  | (header) "\<not> is_completed (tasks s ! i)" "startswith_star (content (tasks s ! i))"
      "s' = remove_label i l s" "f1 = ffs" "f2 = ffp"
  | (live) item_type s1 where "\<not> is_completed (tasks s ! i)"
      "\<not> startswith_star (content (tasks s ! i))"
      "get_item_type (recursion_limit e) a (tasks s ! i) (map (\<lambda>j. tasks s ! j) items)
         = Inr item_type"
      "label_root l item_type st pt i (ffs, ffp, s) = (f1, f2, s1)"
      "s' = gates l a e i cs (label_children l [item_type, st, pt] i cs s1)"
proof (cases "is_completed (tasks s ! i)")
  case True
  with assms have "s' = s" "f1 = ffs" "f2 = ffp" by (simp_all add: label_item_def)
  then show ?thesis by (rule skip [OF True])
next
  case nc: False
  show ?thesis
  proof (cases "startswith_star (content (tasks s ! i))")
    case True
    with nc assms have "s' = remove_label i l s" "f1 = ffs" "f2 = ffp"
      by (simp_all add: label_item_def)
    then show ?thesis by (rule header [OF nc True])
  next
    case False
    from label_item_live [OF nc False assms] obtain item_type s1 where
      a: "get_item_type (recursion_limit e) a (tasks s ! i) (map (\<lambda>j. tasks s ! j) items)
            = Inr item_type"
      and b: "label_root l item_type st pt i (ffs, ffp, s) = (f1, f2, s1)"
      and c: "s' = gates l a e i cs (label_children l [item_type, st, pt] i cs s1)"
      by blast
    show ?thesis by (rule live [OF nc False a b c])
  qed
qed

lemma label_item_keeps:
  assumes "label_item l a e st pt items i cs (ffs, ffp, s) = Inr (f1, f2, s')"
  shows "keeps l s s'"
  using assms
proof (cases rule: label_item_cases)
  case skip
  then show ?thesis by simp
next
  case header
  then show ?thesis by simp
next
  case (live item_type s1)
  have "keeps l s s1" by (rule keeps_label_root [OF live(4)])
  then have "keeps l s (label_children l [item_type, st, pt] i cs s1)"
    by (rule keeps_trans [OF _ keeps_label_children])
  then show ?thesis unfolding live(5) by (rule keeps_trans [OF _ gates_props(2)])
qed

lemma label_item_outside:
  assumes "label_item l a e st pt items i cs (ffs, ffp, s) = Inr (f1, f2, s')"
    and "j \<noteq> i" "j \<notin> set cs"
  shows "labels (tasks s' ! j) = labels (tasks s ! j)"
  using assms(1)
proof (cases rule: label_item_cases)
  case skip
  then show ?thesis by simp
next
  case header
  then show ?thesis using assms(2) by (simp add: labels_remove_other)
next
  case (live item_type s1)
  have "labels (tasks s1 ! j) = labels (tasks s ! j)"
    by (rule label_root_header [OF live(4) assms(2)])
  then show ?thesis unfolding live(5)
    using assms(2,3) by (simp add: gates_outside label_children_outside)
qed

lemma label_root_flags:
  assumes "label_root l it st pt i (ffs, ffp, s) = (f1, f2, s1)"
  shows "f1 = (ffs \<or> (parent_id (tasks s ! i) = None \<and> st \<noteq> None))"
    and "f2 = (ffp \<or> (parent_id (tasks s ! i) = None \<and> pt \<noteq> None))"
    and "s1 = (if parent_id (tasks s ! i) = None \<and> root_gets_label it st pt ffs ffp
               then add_label i l s else s)"
proof -
  have r: "(f1, f2, s1) =
     (if parent_id (tasks s ! i) = None
      then (ffs \<or> st \<noteq> None, ffp \<or> pt \<noteq> None,
            if root_gets_label it st pt ffs ffp then add_label i l s else s)
      else (ffs, ffp, s))"
    using assms by (simp only: label_root_char)
  show "f1 = (ffs \<or> (parent_id (tasks s ! i) = None \<and> st \<noteq> None))"
    using r by (cases "parent_id (tasks s ! i)") simp_all
  show "f2 = (ffp \<or> (parent_id (tasks s ! i) = None \<and> pt \<noteq> None))"
    using r by (cases "parent_id (tasks s ! i)") simp_all
  show "s1 = (if parent_id (tasks s ! i) = None \<and> root_gets_label it st pt ffs ffp
               then add_label i l s else s)"
    using r by (cases "parent_id (tasks s ! i)") simp_all
qed

lemma label_item_flags:
  assumes "label_item l a e st pt items i cs (ffs, ffp, s) = Inr (f1, f2, s')"
  shows "ffp \<longrightarrow> f2" and "ffs \<longrightarrow> f1"
    and "\<not> is_completed (tasks s ! i) \<Longrightarrow> \<not> startswith_star (content (tasks s ! i))
         \<Longrightarrow> parent_id (tasks s ! i) = None \<Longrightarrow> pt \<noteq> None \<Longrightarrow> f2"
proof -
  show "ffp \<longrightarrow> f2"
    using assms
  proof (cases rule: label_item_cases)
    case skip
    then show ?thesis by simp
  next
    case header
    then show ?thesis by simp
  next
    case (live item_type s1)
    from label_root_flags(2) [OF live(4)] show ?thesis by simp
  qed
  show "ffs \<longrightarrow> f1"
    using assms
  proof (cases rule: label_item_cases)
    case skip
    then show ?thesis by simp
  next
    case header
    then show ?thesis by simp
  next
    case (live item_type s1)
    from label_root_flags(1) [OF live(4)] show ?thesis by simp
  qed
  show "f2" if h: "\<not> is_completed (tasks s ! i)" "\<not> startswith_star (content (tasks s ! i))"
    "parent_id (tasks s ! i) = None" "pt \<noteq> None"
    using assms
  proof (cases rule: label_item_cases)
    case skip
    with h show ?thesis by simp
  next
    case header
    with h show ?thesis by simp
  next
    case (live item_type s1)
    from label_root_flags(2) [OF live(4)] h show ?thesis by simp
  qed
qed

lemma label_item_self_no_gain:
  assumes "label_item l a e st pt items i cs (ffs, ffp, s) = Inr (f1, f2, s')"
    and "i \<notin> set cs"
    and "\<And>t. get_item_type (recursion_limit e) a (tasks s ! i) (map (\<lambda>j. tasks s ! j) items) = Inr t
           \<Longrightarrow> \<not> root_gets_label t st pt ffs ffp"
  shows "set (labels (tasks s' ! i)) \<subseteq> set (labels (tasks s ! i))"
  using assms(1)
proof (cases rule: label_item_cases)
  case skip
  then show ?thesis by simp
next
  case header
  then show ?thesis using labels_remove_subset [of i l s i] by simp
next
  case (live item_type s1)
  have "s1 = s" using label_root_flags(3) [OF live(4)] assms(3) [OF live(3)] by simp
  then have "set (labels (tasks (label_children l [item_type, st, pt] i cs s1) ! i))
             \<subseteq> set (labels (tasks s ! i))"
    using label_children_self [OF assms(2), of l "[item_type, st, pt]" s] by simp
  then show ?thesis unfolding live(5)
    using gates_props(1) [of l a e i cs "label_children l [item_type, st, pt] i cs s1" i]
    by (rule_tac subset_trans)
qed

lemma run_recurring_lists_logic_nothing: "run_recurring_lists_logic a item s = s"
  by (simp add: run_recurring_lists_logic_def Let_def split: sum.splits)

lemma reset_r_tag_nothing: "reset_r_tag item s = s"
  by (simp add: reset_r_tag_def split: sum.splits)

lemma visit_label:
  assumes "visit (Some l) a e hp up hs us st pt items i (ffs, ffp, s) = Inr r"
  shows "label_item l a e st pt items i (child_items_of (tasks s) items i) (ffs, ffp, s) = Inr r"
  using assms
  by (simp add: visit_def Let_def run_recurring_lists_logic_nothing reset_r_tag_nothing
        split: sum.splits cong: if_cong)

lemma set_sort_items [simp]: "set (sort_items ts xs) = set xs"
  by (simp add: sort_items_def)

lemma root_not_child:
  "parent_id (ts ! r) = None \<Longrightarrow> r \<notin> set (child_items_of ts items i)"
  by (auto simp: child_items_of_def)

lemma same_frame_sym: "same_frame s s' \<Longrightarrow> same_frame s' s"
  by (simp add: same_frame_def)

text \<open>One visit in a section without a type, in a sequential project, all items untagged.\<close>

lemma visit_untyped_section:
  assumes v: "visit (Some l) a e hp up hs us None pt items i (ffs, fp, cur) = Inr (f1, f2, cur')"
    and pt: "seq_like pt"
    and untag: "\<forall>x\<in>set items. get_type a (content (tasks cur ! x)) = None"
    and i: "i \<in> set items"
  shows "keeps l cur cur'" and "fp \<longrightarrow> f2"
    and "eligible_root (tasks cur ! i) \<longrightarrow> f2"
    and "parent_id (tasks cur ! r) = None \<Longrightarrow> r \<noteq> i \<or> fp
         \<Longrightarrow> set (labels (tasks cur' ! r)) \<subseteq> set (labels (tasks cur ! r))"
proof -
  let ?cs = "child_items_of (tasks cur) items i"
  have li: "label_item l a e None pt items i ?cs (ffs, fp, cur) = Inr (f1, f2, cur')"
    by (rule visit_label [OF v])
  show "keeps l cur cur'" by (rule label_item_keeps [OF li])
  show "fp \<longrightarrow> f2" by (rule label_item_flags(1) [OF li])
  have ptn: "pt \<noteq> None" using pt by (auto simp: seq_like_def)
  show "eligible_root (tasks cur ! i) \<longrightarrow> f2"
    using label_item_flags(3) [OF li] ptn by (simp add: eligible_root_def)
  show "set (labels (tasks cur' ! r)) \<subseteq> set (labels (tasks cur ! r))"
    if root: "parent_id (tasks cur ! r) = None" and c: "r \<noteq> i \<or> fp"
  proof (cases "r = i")
    case False
    have "r \<notin> set ?cs" by (rule root_not_child [OF root])
    then show ?thesis using label_item_outside [OF li False] by simp
  next
    case True
    with c have fp: fp by simp
    have ics: "i \<notin> set ?cs" using root True by (simp add: root_not_child)
    have ng: "\<not> root_gets_label t None pt ffs fp"
      if "get_item_type (recursion_limit e) a (tasks cur ! i) (map (\<lambda>j. tasks cur ! j) items) = Inr t"
      for t
    proof -
      have ti: "get_type a (content (tasks cur ! i)) = None" using untag i by simp
      have tall: "\<forall>x\<in>set (map (\<lambda>j. tasks cur ! j) items). get_type a (content x) = None"
        using untag by simp
      have "t = None"
      proof (cases "recursion_limit e")
        case 0
        with that show ?thesis by simp
      next
        case (Suc n)
        then have "0 < recursion_limit e" by simp
        from get_item_type_untagged [OF this ti tall] that show ?thesis by simp
      qed
      then show ?thesis using pt fp by (auto simp: root_gets_label_def seq_like_def)
    qed
    show ?thesis using label_item_self_no_gain [OF li ics ng] True by simp
  qed
qed

lemma process_section_loop:
  assumes "process_section lab a e hp up pt project_items sr (ffp, s) = Inr (ffp', s')"
  obtains hs ffs' where "check_header (s_name (section_of s sr)) = Inr hs"
    and "for_each (visit lab a e hp up (fst hs) (snd hs)
                     (get_section_type a (Some (section_of s sr))) pt
                     (section_items s sr project_items))
           (section_items s sr project_items) (False, ffp, s) = Inr (ffs', ffp', s')"
proof -
  from assms obtain hs where hs: "check_header (s_name (section_of s sr)) = Inr hs"
    by (cases "check_header (s_name (section_of s sr))")
      (simp_all add: process_section_def section_of_def Let_def)
  from assms hs obtain r where
    r: "for_each (visit lab a e hp up (fst hs) (snd hs)
                     (get_section_type a (Some (section_of s sr))) pt
                     (section_items s sr project_items))
           (section_items s sr project_items) (False, ffp, s) = Inr r"
    and r2: "snd r = (ffp', s')"
    by (cases "for_each (visit lab a e hp up (fst hs) (snd hs)
                     (get_section_type a (Some (section_of s sr))) pt
                     (section_items s sr project_items))
           (section_items s sr project_items) (False, ffp, s)")
      (simp_all add: process_section_def section_of_def section_items_def Let_def)
  from r2 have "r = (fst r, ffp', s')" by (cases r) simp
  with r that [OF hs] show ?thesis by metis
qed

lemma process_section_untyped:
  assumes ps: "process_section (Some l) a e hp up pt project_items sr (ffp, s) = Inr (ffp', s')"
    and pt: "seq_like pt"
    and st: "get_section_type a (Some (section_of s sr)) = None"
    and untag: "\<forall>x\<in>set project_items. get_type a (content (tasks s ! x)) = None"
  shows "keeps l s s'" and "ffp \<longrightarrow> ffp'"
    and "(\<exists>x\<in>set (section_items s sr project_items). eligible_root (tasks s ! x)) \<longrightarrow> ffp'"
    and "\<And>r. parent_id (tasks s ! r) = None
           \<Longrightarrow> r \<notin> set (section_items s sr project_items) \<or> ffp
           \<Longrightarrow> set (labels (tasks s' ! r)) \<subseteq> set (labels (tasks s ! r))"
proof -
  let ?items = "section_items s sr project_items"
  from process_section_loop [OF ps] obtain hs ffs' where
    loop: "for_each (visit (Some l) a e hp up (fst hs) (snd hs) None pt ?items)
             ?items (False, ffp, s) = Inr (ffs', ffp', s')"
    unfolding st by blast
  have sub: "set ?items \<subseteq> set project_items" by (auto simp: section_items_def)
  define Inv where "Inv = (\<lambda>t :: bool \<times> bool \<times> state.
     keeps l s (snd (snd t)) \<and> (ffp \<longrightarrow> fst (snd t))
     \<and> (\<forall>r. parent_id (tasks s ! r) = None \<and> (r \<notin> set ?items \<or> ffp)
            \<longrightarrow> set (labels (tasks (snd (snd t)) ! r)) \<subseteq> set (labels (tasks s ! r))))"
  have step: "Inv t' \<and> (fst (snd t) \<longrightarrow> fst (snd t'))
              \<and> (eligible_root (tasks s ! i) \<longrightarrow> fst (snd t'))"
    if i: "i \<in> set ?items" and inv: "Inv t"
      and v: "visit (Some l) a e hp up (fst hs) (snd hs) None pt ?items i t = Inr t'"
    for i t t'
  proof -
    obtain ffs fp cur where t: "t = (ffs, fp, cur)" by (cases t) auto
    obtain f1 f2 cur' where t': "t' = (f1, f2, cur')" by (cases t') auto
    from inv t have k: "keeps l s cur" and fl: "ffp \<longrightarrow> fp"
      and ng: "\<forall>r. parent_id (tasks s ! r) = None \<and> (r \<notin> set ?items \<or> ffp)
            \<longrightarrow> set (labels (tasks cur ! r)) \<subseteq> set (labels (tasks s ! r))"
      by (simp_all add: Inv_def)
    from k have fr: "same_frame s cur" by (simp add: keeps_def)
    have untag': "\<forall>x\<in>set ?items. get_type a (content (tasks cur ! x)) = None"
      using untag sub frame_fields(1) [OF fr] by auto
    note vu = visit_untyped_section [OF v [unfolded t t'] pt untag' i]
    have k': "keeps l s cur'" by (rule keeps_trans [OF k vu(1)])
    have el: "eligible_root (tasks cur ! i) = eligible_root (tasks s ! i)"
      using frame_fields(1,2,3) [OF fr, of i] by (simp add: eligible_root_def)
    have ng': "set (labels (tasks cur' ! r)) \<subseteq> set (labels (tasks s ! r))"
      if root: "parent_id (tasks s ! r) = None" and c: "r \<notin> set ?items \<or> ffp" for r
    proof -
      have rootc: "parent_id (tasks cur ! r) = None" using root frame_fields(3) [OF fr] by simp
      have c': "r \<noteq> i \<or> fp" using c i fl by auto
      have "set (labels (tasks cur' ! r)) \<subseteq> set (labels (tasks cur ! r))"
        by (rule vu(4) [OF rootc c'])
      also have "\<dots> \<subseteq> set (labels (tasks s ! r))" using ng root c by simp
      finally show ?thesis .
    qed
    show ?thesis
      unfolding t t' Inv_def using k' fl vu(2) vu(3) el ng' by simp
  qed
  have inv0: "Inv (False, ffp, s)" by (simp add: Inv_def)
  have invE: "Inv (ffs', ffp', s')"
    by (rule for_each_invariant [where P = Inv, OF loop inv0]) (use step in blast)
  then show "keeps l s s'" by (simp add: Inv_def)
  from invE show "ffp \<longrightarrow> ffp'" by (simp add: Inv_def)
  show "\<And>r. parent_id (tasks s ! r) = None \<Longrightarrow> r \<notin> set ?items \<or> ffp
           \<Longrightarrow> set (labels (tasks s' ! r)) \<subseteq> set (labels (tasks s ! r))"
    using invE by (simp add: Inv_def)
  show "(\<exists>x\<in>set ?items. eligible_root (tasks s ! x)) \<longrightarrow> ffp'"
  proof
    assume "\<exists>x\<in>set ?items. eligible_root (tasks s ! x)"
    then obtain x where x: "x \<in> set ?items" "eligible_root (tasks s ! x)" by blast
    have "fst (snd (ffs', ffp', s'))"
    proof (rule for_each_reaches [where P = Inv and Q = "\<lambda>t. fst (snd t)", OF loop inv0 x(1)])
      show "Inv t' \<and> (fst (snd t) \<longrightarrow> fst (snd t'))"
        if "y \<in> set ?items" "Inv t"
          "visit (Some l) a e hp up (fst hs) (snd hs) None pt ?items y t = Inr t'" for y t t'
        using step [OF that] by simp
      show "fst (snd t')"
        if "Inv t" "visit (Some l) a e hp up (fst hs) (snd hs) None pt ?items x t = Inr t'"
        for t t'
        using step [OF x(1) that] x(2) by simp
    qed
    then show ffp' by simp
  qed
qed

lemma check_header_Inr: "check_header n = Inr hp \<Longrightarrow> hp = (False, False)"
  by (auto simp: check_header_def split: if_splits)

lemma process_project_loops:
  assumes "process_project lab a e k s = Inr s'"
  obtains f1 s1 f2 where
    "process_section lab a e False False (get_project_type a (projects s ! k))
       (project_items_of s k) None (False, s) = Inr (f1, s1)"
    and "for_each (process_section lab a e False False (get_project_type a (projects s ! k))
                     (project_items_of s k))
           (map Some (filter (\<lambda>x. s_project_id (sections s1 ! x) = p_id (projects s ! k))
                        [0..<length (sections s1)])) (f1, s1) = Inr (f2, s')"
proof -
  let ?pt = "get_project_type a (projects s ! k)"
  from assms obtain hp where hp: "check_header (p_name (projects s ! k)) = Inr hp"
    by (cases "check_header (p_name (projects s ! k))") (simp_all add: process_project_def Let_def)
  then have hp2: "hp = (False, False)" by (rule check_header_Inr)
  from assms hp hp2 obtain r where
    r: "for_each (process_section lab a e False False ?pt (project_items_of s k)) [None] (False, s) = Inr r"
    by (cases "for_each (process_section lab a e False False ?pt (project_items_of s k)) [None] (False, s)")
      (simp_all add: process_project_def Let_def project_items_of_def)
  from assms hp hp2 r obtain r1 where
    r1: "for_each (process_section lab a e False False ?pt (project_items_of s k))
           (map Some (filter (\<lambda>x. s_project_id (sections (snd r) ! x) = p_id (projects s ! k))
                        [0..<length (sections (snd r))])) r = Inr r1"
    and r1s: "snd r1 = s'"
    by (cases "for_each (process_section lab a e False False ?pt (project_items_of s k))
           (map Some (filter (\<lambda>x. s_project_id (sections (snd r) ! x) = p_id (projects s ! k))
                        [0..<length (sections (snd r))])) r")
      (simp_all add: process_project_def Let_def project_items_of_def)
  from r have ps: "process_section lab a e False False ?pt (project_items_of s k) None (False, s) = Inr r"
    by (simp split: sum.splits)
  have e1: "r = (fst r, snd r)" and e2: "r1 = (fst r1, s')" using r1s by (cases r1, simp)+
  show ?thesis
    using that [of "fst r" "snd r" "fst r1"] ps r1 r1s by (cases r; cases r1) simp
qed

lemma section_items_None:
  "set (section_items s None (project_items_of s k)) =
     {x. x < length (tasks s) \<and> project_id (tasks s ! x) = p_id (projects s ! k)
         \<and> section_id (tasks s ! x) = None}"
  by (auto simp: section_items_def project_items_of_def section_of_def create_none_section_def)

lemma process_project_untyped:
  assumes pp: "process_project (Some l) a e k s = Inr s'"
    and pt: "seq_like (get_project_type a (projects s ! k))"
    and nst: "get_section_type a (Some create_none_section) = None"
    and sec: "\<forall>x\<in>set (project_sections_of s k). get_section_type a (Some (sections s ! x)) = None"
    and untag: "\<forall>x\<in>set (project_items_of s k). get_type a (content (tasks s ! x)) = None"
    and el: "x0 \<in> set (project_items_of s k)" "section_id (tasks s ! x0) = None"
      "eligible_root (tasks s ! x0)"
  shows "\<exists>s1 f2.
           process_section (Some l) a e False False (get_project_type a (projects s ! k))
             (project_items_of s k) None (False, s) = Inr (True, s1)
         \<and> for_each (process_section (Some l) a e False False
                        (get_project_type a (projects s ! k)) (project_items_of s k))
             (map Some (project_sections_of s k)) (True, s1) = Inr (f2, s')"
    and "keeps l s s'"
    and "\<And>r. parent_id (tasks s ! r) = None \<Longrightarrow> section_id (tasks s ! r) \<noteq> None
           \<Longrightarrow> has_label l s' r \<Longrightarrow> has_label l s r"
proof -
  let ?pt = "get_project_type a (projects s ! k)"
  let ?pi = "project_items_of s k"
  from process_project_loops [OF pp] obtain f1 s1 f2 where
    p1: "process_section (Some l) a e False False ?pt ?pi None (False, s) = Inr (f1, s1)"
    and p2: "for_each (process_section (Some l) a e False False ?pt ?pi)
           (map Some (filter (\<lambda>x. s_project_id (sections s1 ! x) = p_id (projects s ! k))
                        [0..<length (sections s1)])) (f1, s1) = Inr (f2, s')"
    by blast
  have nst': "get_section_type a (Some (section_of s None)) = None"
    using nst by (simp add: section_of_def)
  note n = process_section_untyped [OF p1 pt nst' untag]
  have x0: "x0 \<in> set (section_items s None ?pi)"
    using el(1,2) by (simp add: section_items_def section_of_def create_none_section_def)
  have f1: f1 using n(3) x0 el(3) by blast
  have k1: "keeps l s s1" by (rule n(1))
  then have fr1: "same_frame s s1" by (simp add: keeps_def)
  then have secs: "sections s1 = sections s" by (simp add: same_frame_def)
  have p2': "for_each (process_section (Some l) a e False False ?pt ?pi)
           (map Some (project_sections_of s k)) (True, s1) = Inr (f2, s')"
    using p2 f1 by (simp add: secs project_sections_of_def)
  define Inv where "Inv = (\<lambda>t :: bool \<times> state.
     keeps l s1 (snd t) \<and> fst t
     \<and> (\<forall>r. parent_id (tasks s1 ! r) = None
            \<longrightarrow> set (labels (tasks (snd t) ! r)) \<subseteq> set (labels (tasks s1 ! r))))"
  have step: "Inv t'"
    if x: "x \<in> set (map Some (project_sections_of s k))" and inv: "Inv t"
      and v: "process_section (Some l) a e False False ?pt ?pi x t = Inr t'"
    for x t t'
  proof -
    obtain fp cur where t: "t = (fp, cur)" by (cases t) auto
    obtain fp' cur' where t': "t' = (fp', cur')" by (cases t') auto
    from x obtain j where j: "x = Some j" "j \<in> set (project_sections_of s k)" by auto
    from inv t have kc: "keeps l s1 cur" and fp: fp
      and ng: "\<forall>r. parent_id (tasks s1 ! r) = None
            \<longrightarrow> set (labels (tasks cur ! r)) \<subseteq> set (labels (tasks s1 ! r))"
      by (simp_all add: Inv_def)
    have ks: "keeps l s cur" by (rule keeps_trans [OF k1 kc])
    then have fr: "same_frame s cur" by (simp add: keeps_def)
    from kc have frc: "same_frame s1 cur" by (simp add: keeps_def)
    have st: "get_section_type a (Some (section_of cur x)) = None"
      using sec j fr by (simp add: section_of_def same_frame_def)
    have ut: "\<forall>y\<in>set ?pi. get_type a (content (tasks cur ! y)) = None"
      using untag frame_fields(1) [OF fr] by simp
    note m = process_section_untyped [OF v [unfolded t t'] pt st ut]
    have k': "keeps l s1 cur'" by (rule keeps_trans [OF kc m(1)])
    have ng': "set (labels (tasks cur' ! r)) \<subseteq> set (labels (tasks s1 ! r))"
      if root: "parent_id (tasks s1 ! r) = None" for r
    proof -
      have rootc: "parent_id (tasks cur ! r) = None"
        using root frame_fields(3) [OF frc] by simp
      have "set (labels (tasks cur' ! r)) \<subseteq> set (labels (tasks cur ! r))"
        by (rule m(4) [OF rootc]) (simp add: fp)
      also have "\<dots> \<subseteq> set (labels (tasks s1 ! r))" using ng root by simp
      finally show ?thesis .
    qed
    show ?thesis unfolding t' Inv_def using k' m(2) fp ng' by simp
  qed
  have inv0: "Inv (True, s1)" by (simp add: Inv_def keeps_refl)
  have invE: "Inv (f2, s')"
    by (rule for_each_invariant [where P = Inv, OF p2' inv0]) (use step in blast)
  show "\<exists>s1 f2.
           process_section (Some l) a e False False ?pt ?pi None (False, s) = Inr (True, s1)
         \<and> for_each (process_section (Some l) a e False False ?pt ?pi)
             (map Some (project_sections_of s k)) (True, s1) = Inr (f2, s')"
    using p1 p2' f1 by auto
  from invE have k2: "keeps l s1 s'" by (simp add: Inv_def)
  show "keeps l s s'" by (rule keeps_trans [OF k1 k2])
  show "has_label l s' r \<Longrightarrow> has_label l s r"
    if root: "parent_id (tasks s ! r) = None" and sct: "section_id (tasks s ! r) \<noteq> None" for r
  proof -
    assume h: "has_label l s' r"
    have root1: "parent_id (tasks s1 ! r) = None" using root frame_fields(3) [OF fr1] by simp
    have "r \<notin> set (section_items s None ?pi)" using sct by (simp add: section_items_None)
    then have a: "set (labels (tasks s1 ! r)) \<subseteq> set (labels (tasks s ! r))"
      using n(4) [OF root] by simp
    have b: "set (labels (tasks s' ! r)) \<subseteq> set (labels (tasks s1 ! r))"
      using invE root1 by (simp add: Inv_def)
    from h a b show ?thesis by (auto simp: has_label_def)
  qed
qed

section \<open>Two passes side by side\<close>

lemma for_each_sim:
  assumes "for_each f xs s = Inr s'" and "for_each g xs t = Inr t'" and "R s t"
    and "\<And>x s s' t t'. x \<in> set xs \<Longrightarrow> R s t \<Longrightarrow> f x s = Inr s' \<Longrightarrow> g x t = Inr t' \<Longrightarrow> R s' t'"
  shows "R s' t'"
  using assms
proof (induction xs arbitrary: s t)
  case Nil
  then show ?case by simp
next
  case (Cons x xs)
  from Cons.prems(1) obtain s1 where s1: "f x s = Inr s1" "for_each f xs s1 = Inr s'"
    by (auto split: sum.splits)
  from Cons.prems(2) obtain t1 where t1: "g x t = Inr t1" "for_each g xs t1 = Inr t'"
    by (auto split: sum.splits)
  have r1: "R s1 t1" using Cons.prems(4) [of x s t s1 t1] Cons.prems(3) s1(1) t1(1) by simp
  have step: "\<And>y s s' t t'. y \<in> set xs \<Longrightarrow> R s t \<Longrightarrow> f y s = Inr s' \<Longrightarrow> g y t = Inr t' \<Longrightarrow> R s' t'"
    using Cons.prems(4) by (meson list.set_intros(2))
  show ?case by (rule Cons.IH [OF s1(2) t1(2) r1 step])
qed

lemma get_item_type_skel:
  "get_item_type n a item items = get_item_type n a (skel item) (map skel items)"
proof (induction n arbitrary: item)
  case 0
  show ?case by simp
next
  case (Suc n)
  have f: "filter (\<lambda>parent. Some (i_id parent) = parent_id (skel item)) (map skel items)
           = map skel (filter (\<lambda>parent. Some (i_id parent) = parent_id item) items)"
    by (simp add: filter_map o_def skel_fields)
  show ?case
  proof (cases "filter (\<lambda>parent. Some (i_id parent) = parent_id item) items")
    case Nil
    then show ?thesis using f by (simp add: skel_fields Let_def)
  next
    case (Cons p ps)
    then show ?thesis using f Suc.IH [of p] by (simp add: skel_fields Let_def)
  qed
qed

lemma get_item_type_frame:
  assumes "same_frame s t"
  shows "get_item_type n a (tasks s ! i) (map (\<lambda>j. tasks s ! j) items)
         = get_item_type n a (tasks t ! i) (map (\<lambda>j. tasks t ! j) items)"
proof -
  have sk: "\<And>j. skel (tasks t ! j) = skel (tasks s ! j)" using assms by (simp add: same_frame_def)
  have "get_item_type n a (tasks s ! i) (map (\<lambda>j. tasks s ! j) items)
        = get_item_type n a (skel (tasks s ! i)) (map skel (map (\<lambda>j. tasks s ! j) items))"
    by (rule get_item_type_skel)
  also have "\<dots> = get_item_type n a (skel (tasks t ! i)) (map skel (map (\<lambda>j. tasks t ! j) items))"
    by (simp add: sk o_def)
  also have "\<dots> = get_item_type n a (tasks t ! i) (map (\<lambda>j. tasks t ! j) items)"
    by (rule get_item_type_skel [symmetric])
  finally show ?thesis .
qed

lemma start_date_gate_sim:
  assumes "content (tasks t ! i) = content (tasks s ! i)"
  shows "(\<exists>b. start_date_gate l a e i [] s = (b, s) \<and> start_date_gate l a e i [] t = (b, t))
       \<or> (start_date_gate l a e i [] s = (True, remove_label i l s)
          \<and> start_date_gate l a e i [] t = (True, remove_label i l t))"
  by (auto simp: start_date_gate_def Let_def remove_from_children_def assms split: option.splits)

lemma apply_offset_sim:
  "(apply_offset l e i [] d x s = s\<lparr>td := Some x\<rparr> \<and> apply_offset l e i [] d x t = t\<lparr>td := Some x\<rparr>)
   \<or> (apply_offset l e i [] d x s = remove_label i l (s\<lparr>td := Some x\<rparr>)
      \<and> apply_offset l e i [] d x t = remove_label i l (t\<lparr>td := Some x\<rparr>))"
  by (simp add: apply_offset_def Let_def remove_from_children_def)

lemma due_offset_gate_sim:
  assumes "content (tasks t ! i) = content (tasks s ! i)" "due (tasks t ! i) = due (tasks s ! i)"
    "td t = td s"
  shows "(due_offset_gate l a e i [] s = s \<and> due_offset_gate l a e i [] t = t)
       \<or> (\<exists>x. (due_offset_gate l a e i [] s = s\<lparr>td := Some x\<rparr>
               \<and> due_offset_gate l a e i [] t = t\<lparr>td := Some x\<rparr>)
            \<or> (due_offset_gate l a e i [] s = remove_label i l (s\<lparr>td := Some x\<rparr>)
               \<and> due_offset_gate l a e i [] t = remove_label i l (t\<lparr>td := Some x\<rparr>)))"
proof (cases "find_str ''start=due-'' (content (tasks s ! i))")
  case None
  then show ?thesis using assms by (simp add: due_offset_gate_def)
next
  case (Some f)
  show ?thesis
  proof (cases "due (tasks s ! i)")
    case None
    then show ?thesis using Some assms by (simp add: due_offset_gate_def)
  next
    case du: (Some du)
    show ?thesis
    proof (cases "offset_td e (content (tasks s ! i)) f (td s)")
      case None
      then show ?thesis using Some du assms by (simp add: due_offset_gate_def)
    next
      case x: (Some x)
      have 1: "due_offset_gate l a e i [] s = apply_offset l e i [] (date du) x s"
        using Some du x by (simp add: due_offset_gate_def)
      have 2: "due_offset_gate l a e i [] t = apply_offset l e i [] (date du) x t"
        using Some du x assms by (simp add: due_offset_gate_def)
      show ?thesis unfolding 1 2
        using apply_offset_sim [of l e i "date du" x s t] by blast
    qed
  qed
qed

lemma alike_refl [simp]: "alike l s t s t j"
  by (simp add: alike_def)

lemma alike_trans:
  "alike l s t s1 t1 j \<Longrightarrow> alike l s1 t1 s2 t2 j \<Longrightarrow> alike l s t s2 t2 j"
  by (auto simp: alike_def has_label_def)

lemma alike_td [simp]: "alike l s t (s\<lparr>td := x\<rparr>) (t\<lparr>td := y\<rparr>) j"
  by (simp add: alike_def)

lemma alike_remove:
  assumes "i < length (tasks s)" "i < length (tasks t)" "labels_ok s" "labels_ok t"
  shows "alike l s t (remove_label i l s) (remove_label i l t) j"
proof (cases "j = i")
  case True
  then show ?thesis using assms by (simp add: alike_def has_label_remove_ok)
next
  case False
  then show ?thesis by (simp add: alike_def labels_remove_other)
qed

lemma alike_add:
  assumes "i < length (tasks s)" "i < length (tasks t)"
  shows "alike l s t (add_label i l s) (add_label i l t) j"
proof (cases "j = i")
  case True
  then show ?thesis using assms by (simp add: alike_def has_label_add)
next
  case False
  then show ?thesis by (simp add: alike_def labels_add_other)
qed

lemma gates_sim:
  assumes c: "content (tasks t ! i) = content (tasks s ! i)" "due (tasks t ! i) = due (tasks s ! i)"
    "td t = td s"
    and b: "i < length (tasks s)" "i < length (tasks t)" "labels_ok s" "labels_ok t"
  shows "td (gates l a e i [] t) = td (gates l a e i [] s)"
    and "alike l s t (gates l a e i [] s) (gates l a e i [] t) j"
proof -
  have r: "alike l s t (remove_label i l s) (remove_label i l t) j"
    by (rule alike_remove [OF b])
  have r': "alike l s t (remove_label i l (s\<lparr>td := x\<rparr>)) (remove_label i l (t\<lparr>td := x\<rparr>)) j" for x
    using alike_remove [of i "s\<lparr>td := x\<rparr>" "t\<lparr>td := x\<rparr>" l j] b
    by (simp add: alike_def labels_ok_def)
  have "td (gates l a e i [] t) = td (gates l a e i [] s)
        \<and> alike l s t (gates l a e i [] s) (gates l a e i [] t) j"
  proof (cases "hide_future a > 0")
    case True
    then show ?thesis using c by (simp add: gates_def hide_future_gate_def)
  next
    case False
    from start_date_gate_sim [OF c(1), of l a e] show ?thesis
    proof
      assume "\<exists>b. start_date_gate l a e i [] s = (b, s) \<and> start_date_gate l a e i [] t = (b, t)"
      then obtain b where sg: "start_date_gate l a e i [] s = (b, s)"
        "start_date_gate l a e i [] t = (b, t)" by blast
      show ?thesis
      proof (cases b)
        case True
        then show ?thesis using False sg c by (simp add: gates_def hide_future_gate_def)
      next
        case nb: False
        have gs: "gates l a e i [] s = due_offset_gate l a e i [] s"
          "gates l a e i [] t = due_offset_gate l a e i [] t"
          using False sg nb by (simp_all add: gates_def hide_future_gate_def)
        from due_offset_gate_sim [OF c, of l a e] show ?thesis unfolding gs
        proof (elim disjE exE conjE)
          assume "due_offset_gate l a e i [] s = s" "due_offset_gate l a e i [] t = t"
          then show "td (due_offset_gate l a e i [] t) = td (due_offset_gate l a e i [] s)
            \<and> alike l s t (due_offset_gate l a e i [] s) (due_offset_gate l a e i [] t) j"
            using c by simp
        next
          fix x assume "due_offset_gate l a e i [] s = s\<lparr>td := Some x\<rparr>"
            "due_offset_gate l a e i [] t = t\<lparr>td := Some x\<rparr>"
          then show "td (due_offset_gate l a e i [] t) = td (due_offset_gate l a e i [] s)
            \<and> alike l s t (due_offset_gate l a e i [] s) (due_offset_gate l a e i [] t) j"
            by simp
        next
          fix x assume "due_offset_gate l a e i [] s = remove_label i l (s\<lparr>td := Some x\<rparr>)"
            "due_offset_gate l a e i [] t = remove_label i l (t\<lparr>td := Some x\<rparr>)"
          then show "td (due_offset_gate l a e i [] t) = td (due_offset_gate l a e i [] s)
            \<and> alike l s t (due_offset_gate l a e i [] s) (due_offset_gate l a e i [] t) j"
            using r' by simp
        qed
      qed
    next
      assume "start_date_gate l a e i [] s = (True, remove_label i l s)
          \<and> start_date_gate l a e i [] t = (True, remove_label i l t)"
      then show ?thesis using False c r by (simp add: gates_def hide_future_gate_def)
    qed
  qed
  then show "td (gates l a e i [] t) = td (gates l a e i [] s)"
    and "alike l s t (gates l a e i [] s) (gates l a e i [] t) j" by simp_all
qed

lemma label_children_none [simp]: "label_children l hts i [] s = s"
  by (simp add: label_children_def)

lemma label_item_sim:
  assumes A: "label_item l a e st pt items i [] (ffs, ffp, s) = Inr (f1, f2, s')"
    and B: "label_item l a e st pt items i [] (ffs, ffp, t) = Inr (g1, g2, t')"
    and fr: "same_frame s t" and tdq: "td t = td s"
    and b: "i < length (tasks s)" "labels_ok s" "labels_ok t"
  shows "g1 = f1" and "g2 = f2" and "td t' = td s'" and "alike l s t s' t' j"
proof -
  have len: "i < length (tasks t)" using fr b(1) by (simp add: same_frame_def)
  note ff = frame_fields [OF fr]
  have "g1 = f1 \<and> g2 = f2 \<and> td t' = td s' \<and> alike l s t s' t' j"
    using A
  proof (cases rule: label_item_cases)
    case skip
    then have "is_completed (tasks t ! i)" using ff(2) by simp
    with B have "t' = t" "g1 = ffs" "g2 = ffp" by (simp_all add: label_item_def)
    with skip tdq show ?thesis by simp
  next
    case header
    then have "\<not> is_completed (tasks t ! i)" "startswith_star (content (tasks t ! i))"
      using ff(1,2) by simp_all
    with B have "t' = remove_label i l t" "g1 = ffs" "g2 = ffp" by (simp_all add: label_item_def)
    with header tdq alike_remove [OF b(1) len b(2,3)] show ?thesis by simp
  next
    case (live item_type s1)
    have tc: "\<not> is_completed (tasks t ! i)" "\<not> startswith_star (content (tasks t ! i))"
      using live(1,2) ff(1,2) by simp_all
    have git: "get_item_type (recursion_limit e) a (tasks t ! i) (map (\<lambda>j. tasks t ! j) items)
               = Inr item_type"
      using live(3) get_item_type_frame [OF fr] by simp
    obtain h1 h2 t1 where lr: "label_root l item_type st pt i (ffs, ffp, t) = (h1, h2, t1)"
      by (cases "label_root l item_type st pt i (ffs, ffp, t)") auto
    from B tc git lr have B': "g1 = h1" "g2 = h2" "t' = gates l a e i [] t1"
      by (simp_all add: label_item_def)
    note fs = label_root_flags [OF live(4)]
    note ft = label_root_flags [OF lr]
    have fl: "h1 = f1" "h2 = f2" using fs(1,2) ft(1,2) ff(3) by simp_all
    have st1: "(s1 = s \<and> t1 = t) \<or> (s1 = add_label i l s \<and> t1 = add_label i l t)"
      using fs(3) ft(3) ff(3) by simp
    have al1: "alike l s t s1 t1 j" using st1 alike_add [OF b(1) len] by auto
    have td1: "td t1 = td s1" using st1 tdq by auto
    have fr1: "same_frame s1 t1"
      using st1 fr same_frame_add same_frame_trans same_frame_sym by (metis)
    have ok1: "labels_ok s1" "labels_ok t1" using st1 b(2,3) by auto
    have l1: "i < length (tasks s1)" "i < length (tasks t1)" using st1 b(1) len by auto
    note ff1 = frame_fields [OF fr1]
    note g = gates_sim [OF ff1(1) ff1(5) td1 l1 ok1, of l a e]
    have "alike l s t (gates l a e i [] s1) (gates l a e i [] t1) j"
      by (rule alike_trans [OF al1 g(2)])
    then show ?thesis using live(5) B' fl g(1) by simp
  qed
  then show "g1 = f1" and "g2 = f2" and "td t' = td s'" and "alike l s t s' t' j" by simp_all
qed

lemma section_of_frame: "same_frame s t \<Longrightarrow> section_of t sr = section_of s sr"
  by (cases sr) (simp_all add: section_of_def same_frame_def)

lemma sort_items_frame:
  assumes "same_frame s t"
  shows "sort_items (tasks t) xs = sort_items (tasks s) xs"
proof -
  have "(\<lambda>x. (case parent_id (tasks t ! x) of None \<Rightarrow> 0 | Some p \<Rightarrow> p, i_order (tasks t ! x)))
        = (\<lambda>x. (case parent_id (tasks s ! x) of None \<Rightarrow> 0 | Some p \<Rightarrow> p, i_order (tasks s ! x)))"
    using frame_fields(3,8) [OF assms] by simp
  then show ?thesis by (simp add: sort_items_def)
qed

lemma section_items_frame:
  assumes "same_frame s t"
  shows "section_items t sr pi = section_items s sr pi"
  using frame_fields(6) [OF assms] section_of_frame [OF assms] sort_items_frame [OF assms]
  by (simp add: section_items_def)

lemma project_items_of_frame:
  assumes "same_frame s t"
  shows "project_items_of t k = project_items_of s k"
  using frame_fields(7,9) [OF assms] assms by (simp add: project_items_of_def same_frame_def)

lemma child_items_flat:
  assumes "open_flat s" "same_frame s cs" "\<forall>x\<in>set items. x < length (tasks s)"
  shows "child_items_of (tasks cs) items i = []"
proof -
  have "is_completed (tasks cs ! x) \<or> parent_id (tasks cs ! x) = None" if "x \<in> set items" for x
  proof -
    from that assms(3) have "tasks s ! x \<in> set (tasks s)" by simp
    with assms(1) have "is_completed (tasks s ! x) \<or> parent_id (tasks s ! x) = None"
      by (auto simp: open_flat_def)
    then show ?thesis using frame_fields(2,3) [OF assms(2)] by simp
  qed
  then have "\<forall>x\<in>set items. \<not> (\<not> is_completed (tasks cs ! x)
                 \<and> parent_id (tasks cs ! x) = Some (i_id (tasks cs ! i)))"
    by fastforce
  then show ?thesis by (simp add: child_items_of_def filter_empty_conv)
qed

lemma visit_keeps:
  assumes "visit (Some l) a e hp up hs us st pt items i (ffs, ffp, s) = Inr (f1, f2, s')"
  shows "keeps l s s'"
  by (rule label_item_keeps [OF visit_label [OF assms]])

lemma keeps_frames:
  assumes "same_frame s t" "keeps l s cs" "keeps l t ct"
  shows "same_frame cs ct"
proof -
  from assms(2,3) have a: "same_frame s cs" "same_frame t ct" by (simp_all add: keeps_def)
  have "same_frame cs t" by (rule same_frame_trans [OF same_frame_sym [OF a(1)] assms(1)])
  then show ?thesis by (rule same_frame_trans [OF _ a(2)])
qed

lemma visit_sim:
  assumes base: "same_frame s t" "labels_ok s" "labels_ok t" "open_flat s"
    and A: "visit (Some l) a e hp up hs us st pt items i (ffs, ffp, cs) = Inr (f1, f2, cs')"
    and B: "visit (Some l) a e hp up hs us st pt items i (ffs, ffp, ct) = Inr (g1, g2, ct')"
    and L: "lockstep l s t cs ct"
    and it: "\<forall>x\<in>set items. x < length (tasks s)" "i \<in> set items"
  shows "g1 = f1" and "g2 = f2" and "lockstep l s t cs' ct'"
proof -
  from L have k: "keeps l s cs" "keeps l t ct" and tdq: "td ct = td cs"
    and al: "\<And>j. alike l s t cs ct j" by (simp_all add: lockstep_def)
  have fr: "same_frame cs ct" by (rule keeps_frames [OF base(1) k])
  from k have frs: "same_frame s cs" "same_frame t ct" by (simp_all add: keeps_def)
  have ok: "labels_ok cs" "labels_ok ct" using k base(2,3) by (simp_all add: keeps_def)
  have len: "i < length (tasks cs)" using it frame_fields(9) [OF frs(1)] by simp
  have it': "\<forall>x\<in>set items. x < length (tasks t)" using it(1) frame_fields(9) [OF base(1)] by simp
  have flat_t: "child_items_of (tasks ct) items i = []"
  proof -
    have fr2: "same_frame s ct" by (rule same_frame_trans [OF base(1) frs(2)])
    show ?thesis by (rule child_items_flat [OF base(4) fr2 it(1)])
  qed
  have flat_s: "child_items_of (tasks cs) items i = []"
    by (rule child_items_flat [OF base(4) frs(1) it(1)])
  have A': "label_item l a e st pt items i [] (ffs, ffp, cs) = Inr (f1, f2, cs')"
    using visit_label [OF A] flat_s by simp
  have B': "label_item l a e st pt items i [] (ffs, ffp, ct) = Inr (g1, g2, ct')"
    using visit_label [OF B] flat_t by simp
  note sim = label_item_sim [OF A' B' fr tdq len ok]
  show "g1 = f1" by (rule sim(1))
  show "g2 = f2" by (rule sim(2))
  have k': "keeps l s cs'" by (rule keeps_trans [OF k(1) visit_keeps [OF A]])
  have k2': "keeps l t ct'" by (rule keeps_trans [OF k(2) visit_keeps [OF B]])
  have al': "alike l s t cs' ct' j" for j
    by (rule alike_trans [OF al sim(4)])
  show "lockstep l s t cs' ct'"
    unfolding lockstep_def using k' k2' sim(3) al' by blast
qed

lemma process_section_sim:
  assumes base: "same_frame s t" "labels_ok s" "labels_ok t" "open_flat s"
    and A: "process_section (Some l) a e hp up pt pi sr (ffp, cs) = Inr (f', cs')"
    and B: "process_section (Some l) a e hp up pt pi sr (ffp, ct) = Inr (g', ct')"
    and L: "lockstep l s t cs ct"
    and it: "\<forall>x\<in>set pi. x < length (tasks s)"
  shows "g' = f'" and "lockstep l s t cs' ct'"
proof -
  from L have k: "keeps l s cs" "keeps l t ct" by (simp_all add: lockstep_def)
  have fr: "same_frame cs ct" by (rule keeps_frames [OF base(1) k])
  note so = section_of_frame [OF fr, of sr]
  note si = section_items_frame [OF fr, of sr pi]
  let ?items = "section_items cs sr pi"
  from process_section_loop [OF A] obtain hs ffs' where
    h1: "check_header (s_name (section_of cs sr)) = Inr hs"
    and l1: "for_each (visit (Some l) a e hp up (fst hs) (snd hs)
                     (get_section_type a (Some (section_of cs sr))) pt ?items)
           ?items (False, ffp, cs) = Inr (ffs', f', cs')" by blast
  from process_section_loop [OF B] obtain hs2 ffs2 where
    h2: "check_header (s_name (section_of ct sr)) = Inr hs2"
    and l2: "for_each (visit (Some l) a e hp up (fst hs2) (snd hs2)
                     (get_section_type a (Some (section_of ct sr))) pt (section_items ct sr pi))
           (section_items ct sr pi) (False, ffp, ct) = Inr (ffs2, g', ct')" by blast
  from h1 h2 so have hq: "hs2 = hs" by simp
  have l2': "for_each (visit (Some l) a e hp up (fst hs) (snd hs)
                     (get_section_type a (Some (section_of cs sr))) pt ?items)
           ?items (False, ffp, ct) = Inr (ffs2, g', ct')"
    using l2 by (simp add: hq so si)
  define R where "R = (\<lambda>(x :: bool \<times> bool \<times> state) (y :: bool \<times> bool \<times> state).
     fst y = fst x \<and> fst (snd y) = fst (snd x) \<and> lockstep l s t (snd (snd x)) (snd (snd y)))"
  have bound: "\<forall>x\<in>set ?items. x < length (tasks s)" using it by (simp add: section_items_def)
  have r0: "R (False, ffp, cs) (False, ffp, ct)" using L by (simp add: R_def)
  have step: "R x' y'"
    if i: "i \<in> set ?items" and r: "R x y"
      and vx: "visit (Some l) a e hp up (fst hs) (snd hs)
                 (get_section_type a (Some (section_of cs sr))) pt ?items i x = Inr x'"
      and vy: "visit (Some l) a e hp up (fst hs) (snd hs)
                 (get_section_type a (Some (section_of cs sr))) pt ?items i y = Inr y'"
    for i x y x' y'
  proof -
    obtain x1 x2 xs where x: "x = (x1, x2, xs)" by (cases x) auto
    obtain y1 y2 ys where y: "y = (y1, y2, ys)" by (cases y) auto
    obtain p1 p2 ps where x': "x' = (p1, p2, ps)" by (cases x') auto
    obtain q1 q2 qs where y': "y' = (q1, q2, qs)" by (cases y') auto
    from r x y have e: "y1 = x1" "y2 = x2" and Lxy: "lockstep l s t xs ys" by (simp_all add: R_def)
    note v = visit_sim [OF base vx [unfolded x x'] vy [unfolded y y' e] Lxy bound i]
    show ?thesis unfolding x' y' R_def using v by simp
  qed
  have "R (ffs', f', cs') (ffs2, g', ct')"
    by (rule for_each_sim [where R = R, OF l1 l2' r0]) (use step in blast)
  then show "g' = f'" and "lockstep l s t cs' ct'" by (simp_all add: R_def)
qed

lemma process_section_keeps:
  assumes "process_section (Some l) a e hp up pt pi sr (ffp, s) = Inr (f', s')"
  shows "keeps l s s'"
proof -
  from process_section_loop [OF assms] obtain hs ffs' where
    lp: "for_each (visit (Some l) a e hp up (fst hs) (snd hs)
                     (get_section_type a (Some (section_of s sr))) pt (section_items s sr pi))
           (section_items s sr pi) (False, ffp, s) = Inr (ffs', f', s')" by blast
  define P where "P = (\<lambda>x :: bool \<times> bool \<times> state. keeps l s (snd (snd x)))"
  have step: "P x'" if "P x"
    "visit (Some l) a e hp up (fst hs) (snd hs)
       (get_section_type a (Some (section_of s sr))) pt (section_items s sr pi) i x = Inr x'"
    for i x x'
  proof -
    obtain x1 x2 xs where x: "x = (x1, x2, xs)" by (cases x) auto
    obtain p1 p2 ps where x': "x' = (p1, p2, ps)" by (cases x') auto
    from that(1) x have "keeps l s xs" by (simp add: P_def)
    then have "keeps l s ps" by (rule keeps_trans [OF _ visit_keeps [OF that(2) [unfolded x x']]])
    then show ?thesis by (simp add: P_def x')
  qed
  have "P (ffs', f', s')"
    by (rule for_each_invariant [where P = P, OF lp]) (use step in \<open>auto simp: P_def\<close>)
  then show ?thesis by (simp add: P_def)
qed

lemma process_project_keeps:
  assumes "process_project (Some l) a e k s = Inr s'"
  shows "keeps l s s'"
proof -
  from process_project_loops [OF assms] obtain f1 s1 f2 where
    p1: "process_section (Some l) a e False False (get_project_type a (projects s ! k))
           (project_items_of s k) None (False, s) = Inr (f1, s1)"
    and p2: "for_each (process_section (Some l) a e False False
                         (get_project_type a (projects s ! k)) (project_items_of s k))
           (map Some (filter (\<lambda>x. s_project_id (sections s1 ! x) = p_id (projects s ! k))
                        [0..<length (sections s1)])) (f1, s1) = Inr (f2, s')" by blast
  have k1: "keeps l s s1" by (rule process_section_keeps [OF p1])
  define P where "P = (\<lambda>x :: bool \<times> state. keeps l s (snd x))"
  have step: "P x'" if "P x"
    "process_section (Some l) a e False False (get_project_type a (projects s ! k))
       (project_items_of s k) sr x = Inr x'" for sr x x'
  proof -
    obtain x1 xs where x: "x = (x1, xs)" by (cases x) auto
    obtain p1 ps where x': "x' = (p1, ps)" by (cases x') auto
    from that(1) x have "keeps l s xs" by (simp add: P_def)
    then have "keeps l s ps"
      by (rule keeps_trans [OF _ process_section_keeps [OF that(2) [unfolded x x']]])
    then show ?thesis by (simp add: P_def x')
  qed
  have "P (f2, s')"
    by (rule for_each_invariant [where P = P, OF p2]) (use step k1 in \<open>auto simp: P_def\<close>)
  then show ?thesis by (simp add: P_def)
qed

lemma keeps_reset:
  "keeps l s (s\<lparr>overview_item_ids := x, overview_item_labels := y, td := z\<rparr>)"
  by (simp add: keeps_def same_frame_def labels_ok_def)

lemma autodoist_magic_keeps:
  assumes "autodoist_magic a e (Some l) s = Inr s'"
  shows "keeps l s s'"
proof -
  let ?s0 = "s\<lparr>overview_item_ids := Map.empty, overview_item_labels := Map.empty, td := None\<rparr>"
  have lp: "for_each (process_project (Some l) a e) [0..<length (projects s)] ?s0 = Inr s'"
    using assms by (simp add: autodoist_magic_def)
  have k0: "keeps l s ?s0" by (rule keeps_reset)
  have "keeps l s s'"
    by (rule for_each_invariant [where P = "keeps l s", OF lp k0])
      (rule keeps_trans [OF _ process_project_keeps])
  then show ?thesis .
qed

lemma process_project_sim:
  assumes base: "same_frame s t" "labels_ok s" "labels_ok t" "open_flat s"
    and A: "process_project (Some l) a e k cs = Inr cs'"
    and B: "process_project (Some l) a e k ct = Inr ct'"
    and L: "lockstep l s t cs ct"
  shows "lockstep l s t cs' ct'"
proof -
  from L have k: "keeps l s cs" "keeps l t ct" by (simp_all add: lockstep_def)
  have fr: "same_frame cs ct" by (rule keeps_frames [OF base(1) k])
  from k have frs: "same_frame s cs" by (simp add: keeps_def)
  have pq: "projects ct = projects cs" using fr by (simp add: same_frame_def)
  note pi = project_items_of_frame [OF fr, of k]
  let ?pt = "get_project_type a (projects cs ! k)"
  let ?pi = "project_items_of cs k"
  from process_project_loops [OF A] obtain f1 s1 f2 where
    a1: "process_section (Some l) a e False False ?pt ?pi None (False, cs) = Inr (f1, s1)"
    and a2: "for_each (process_section (Some l) a e False False ?pt ?pi)
           (map Some (filter (\<lambda>x. s_project_id (sections s1 ! x) = p_id (projects cs ! k))
                        [0..<length (sections s1)])) (f1, s1) = Inr (f2, cs')" by blast
  from process_project_loops [OF B] obtain g1 t1 g2 where
    b1: "process_section (Some l) a e False False ?pt ?pi None (False, ct) = Inr (g1, t1)"
    and b2: "for_each (process_section (Some l) a e False False ?pt ?pi)
           (map Some (filter (\<lambda>x. s_project_id (sections t1 ! x) = p_id (projects cs ! k))
                        [0..<length (sections t1)])) (g1, t1) = Inr (g2, ct')"
    unfolding pq pi by blast
  have bound: "\<forall>x\<in>set ?pi. x < length (tasks s)"
    using frame_fields(9) [OF frs] by (simp add: project_items_of_def)
  note s1 = process_section_sim [OF base a1 b1 L bound]
  from s1(2) have k1: "keeps l s s1" "keeps l t t1" by (simp_all add: lockstep_def)
  have fr1: "same_frame s1 t1" by (rule keeps_frames [OF base(1) k1])
  then have sq: "sections t1 = sections s1" by (simp add: same_frame_def)
  define R where "R = (\<lambda>(x :: bool \<times> state) (y :: bool \<times> state).
     fst y = fst x \<and> lockstep l s t (snd x) (snd y))"
  have r0: "R (f1, s1) (g1, t1)" using s1 by (simp add: R_def)
  have step: "R x' y'"
    if r: "R x y"
      and vx: "process_section (Some l) a e False False ?pt ?pi sr x = Inr x'"
      and vy: "process_section (Some l) a e False False ?pt ?pi sr y = Inr y'"
    for sr x y x' y'
  proof -
    obtain x1 xs where x: "x = (x1, xs)" by (cases x) auto
    obtain y1 ys where y: "y = (y1, ys)" by (cases y) auto
    obtain p1 ps where x': "x' = (p1, ps)" by (cases x') auto
    obtain q1 qs where y': "y' = (q1, qs)" by (cases y') auto
    from r x y have e: "y1 = x1" and Lxy: "lockstep l s t xs ys" by (simp_all add: R_def)
    note v = process_section_sim [OF base vx [unfolded x x'] vy [unfolded y y' e] Lxy bound]
    show ?thesis unfolding x' y' R_def using v by simp
  qed
  have "R (f2, cs') (g2, ct')"
    by (rule for_each_sim [where R = R, OF a2 b2 [unfolded sq] r0]) (use step in blast)
  then show ?thesis by (simp add: R_def)
qed

lemma second_pass_same_labels:
  assumes r1: "autodoist_magic a e (Some l) s = Inr s1"
    and r2: "autodoist_magic a e (Some l) s1 = Inr s2"
    and ok: "labels_ok s" and flat: "open_flat s"
  shows "map (\<lambda>x. set (labels x)) (tasks s2) = map (\<lambda>x. set (labels x)) (tasks s1)"
proof -
  let ?S = "s\<lparr>overview_item_ids := Map.empty, overview_item_labels := Map.empty, td := None\<rparr>"
  let ?T = "s1\<lparr>overview_item_ids := Map.empty, overview_item_labels := Map.empty, td := None\<rparr>"
  have k1: "keeps l s s1" by (rule autodoist_magic_keeps [OF r1])
  have k2: "keeps l s1 s2" by (rule autodoist_magic_keeps [OF r2])
  from k1 have fr: "same_frame s s1" by (simp add: keeps_def)
  have pq: "projects s1 = projects s" using fr by (simp add: same_frame_def)
  have base: "same_frame ?S ?T" "labels_ok ?S" "labels_ok ?T" "open_flat ?S"
    using fr ok flat k1 by (simp_all add: same_frame_def labels_ok_def open_flat_def keeps_def)
  have l1: "for_each (process_project (Some l) a e) [0..<length (projects s)] ?S = Inr s1"
    using r1 by (simp add: autodoist_magic_def)
  have l2: "for_each (process_project (Some l) a e) [0..<length (projects s)] ?T = Inr s2"
    using r2 by (simp add: autodoist_magic_def pq)
  have r0: "lockstep l ?S ?T ?S ?T" by (simp add: lockstep_def)
  have fin: "lockstep l ?S ?T s1 s2"
    by (rule for_each_sim [where R = "lockstep l ?S ?T", OF l1 l2 r0])
      (rule process_project_sim [OF base])
  have hl: "has_label l s2 j = has_label l s1 j" for j
  proof -
    from fin have "alike l ?S ?T s1 s2 j" by (simp add: lockstep_def)
    then show ?thesis by (auto simp: alike_def has_label_def)
  qed
  have oth: "set (labels (tasks s2 ! j)) - {l} = set (labels (tasks s1 ! j)) - {l}" for j
    using k2 by (simp add: keeps_def)
  have eq: "set (labels (tasks s2 ! j)) = set (labels (tasks s1 ! j))" for j
    using hl [of j] oth [of j] by (auto simp: has_label_def)
  have len: "length (tasks s2) = length (tasks s1)" using k2 by (simp add: keeps_def same_frame_def)
  show ?thesis by (rule nth_equalityI) (simp_all add: len eq)
qed

section \<open>The first eligible item of a project\<close>

lemma for_each_append:
  "for_each f (xs @ ys) s = Inr s' \<longleftrightarrow> (\<exists>s1. for_each f xs s = Inr s1 \<and> for_each f ys s1 = Inr s')"
  by (induction xs arbitrary: s) (auto split: sum.splits)

lemma find_split:
  assumes "find P xs = Some x"
  shows "\<exists>pre post. xs = pre @ x # post \<and> P x \<and> (\<forall>y\<in>set pre. \<not> P y)"
  using assms
proof (induction xs)
  case Nil
  then show ?case by simp
next
  case (Cons z zs)
  show ?case
  proof (cases "P z")
    case True
    with Cons.prems have "z = x" by simp
    with True have "z # zs = [] @ x # zs \<and> P x \<and> (\<forall>y\<in>set []. \<not> P y)" by simp
    then show ?thesis by blast
  next
    case False
    with Cons.prems have "find P zs = Some x" by simp
    from Cons.IH [OF this] obtain pre post where
      "zs = pre @ x # post" "P x" "\<forall>y\<in>set pre. \<not> P y" by blast
    with False have "z # zs = (z # pre) @ x # post \<and> P x \<and> (\<forall>y\<in>set (z # pre). \<not> P y)"
      by simp
    then show ?thesis by blast
  qed
qed

lemma find_from_prefix:
  "find_from p hay k = None \<Longrightarrow> find_from (p @ q) hay k = None"
proof (induction hay arbitrary: k)
  case Nil
  then show ?case by (simp split: if_splits)
next
  case (Cons x xs)
  from Cons.prems have np: "take (length p) (x # xs) \<noteq> p" and r: "find_from p xs (Suc k) = None"
    by (simp_all split: if_splits)
  have "take (length (p @ q)) (x # xs) \<noteq> p @ q"
  proof
    assume e: "take (length (p @ q)) (x # xs) = p @ q"
    have "take (length p) (x # xs) = take (length p) (take (length (p @ q)) (x # xs))"
      by (simp add: min_def)
    also have "\<dots> = p" unfolding e by simp
    finally show False using np by simp
  qed
  then show ?case using Cons.IH [OF r] by simp
qed

lemma gates_idle:
  assumes "hide_future a > 0 \<or> find_str ''start='' (content (tasks s ! i)) = None"
  shows "gates l a e i cs s = s"
proof (cases "hide_future a > 0")
  case True
  then show ?thesis by (simp add: gates_def hide_future_gate_def)
next
  case False
  with assms have n: "find_str ''start='' (content (tasks s ! i)) = None" by simp
  have "find_str (''start='' @ ''due-'') (content (tasks s ! i)) = None"
    using n unfolding find_str_def by (rule find_from_prefix)
  then have n2: "find_str ''start=due-'' (content (tasks s ! i)) = None" by simp
  show ?thesis using False n n2
    by (simp add: gates_def hide_future_gate_def start_date_gate_def due_offset_gate_def)
qed

lemma visit_other_root:
  assumes "visit (Some l) a e hp up hs us st pt items i (ffs, fp, cur) = Inr (f1, f2, cur')"
    and "r \<noteq> i" "parent_id (tasks cur ! r) = None"
  shows "labels (tasks cur' ! r) = labels (tasks cur ! r)"
  using label_item_outside [OF visit_label [OF assms(1)] assms(2)] root_not_child [OF assms(3)]
  by simp

lemma visit_not_eligible:
  assumes v: "visit (Some l) a e hp up hs us st pt items i (ffs, fp, cur) = Inr (f1, f2, cur')"
    and ne: "\<not> eligible_root (tasks cur ! i)"
  shows "f2 = fp"
    and "parent_id (tasks cur ! i) = None
         \<Longrightarrow> set (labels (tasks cur' ! i)) \<subseteq> set (labels (tasks cur ! i))"
proof -
  let ?cs = "child_items_of (tasks cur) items i"
  have li: "label_item l a e st pt items i ?cs (ffs, fp, cur) = Inr (f1, f2, cur')"
    by (rule visit_label [OF v])
  show "f2 = fp"
    using li
  proof (cases rule: label_item_cases)
    case skip
    then show ?thesis by simp
  next
    case header
    then show ?thesis by simp
  next
    case (live item_type s1)
    with ne have "parent_id (tasks cur ! i) \<noteq> None" by (simp add: eligible_root_def)
    then show ?thesis using label_root_flags(2) [OF live(4)] by auto
  qed
  show "set (labels (tasks cur' ! i)) \<subseteq> set (labels (tasks cur ! i))"
    if root: "parent_id (tasks cur ! i) = None"
    using li
  proof (cases rule: label_item_cases)
    case skip
    then show ?thesis by simp
  next
    case header
    then show ?thesis using labels_remove_subset [of i l cur i] by simp
  next
    case (live item_type s1)
    with ne root show ?thesis by (simp add: eligible_root_def)
  qed
qed

lemma visit_leaf_label:
  assumes v: "visit (Some l) a e hp up hs us None pt items x (ffs, fp, cur) = Inr (f1, f2, cur')"
    and pt: "seq_like pt"
    and untag: "\<forall>y\<in>set items. get_type a (content (tasks cur ! y)) = None"
    and x: "x \<in> set items" "x < length (tasks cur)" "eligible_root (tasks cur ! x)"
    and leaf: "child_items_of (tasks cur) items x = []"
      "hide_future a > 0 \<or> find_str ''start='' (content (tasks cur ! x)) = None"
    and c: "\<not> fp \<or> has_label l cur x"
  shows "has_label l cur' x"
proof -
  have li: "label_item l a e None pt items x [] (ffs, fp, cur) = Inr (f1, f2, cur')"
    using visit_label [OF v] leaf(1) by simp
  from x(3) have el: "parent_id (tasks cur ! x) = None" "\<not> is_completed (tasks cur ! x)"
    "\<not> startswith_star (content (tasks cur ! x))" by (simp_all add: eligible_root_def)
  from li show ?thesis
  proof (cases rule: label_item_cases)
    case skip
    with el show ?thesis by simp
  next
    case header
    with el show ?thesis by simp
  next
    case (live item_type s1)
    have s1: "s1 = (if root_gets_label item_type None pt ffs fp then add_label x l cur else cur)"
      using label_root_flags(3) [OF live(4)] el(1) by simp
    have h1: "has_label l s1 x"
    proof (cases fp)
      case True
      with c have "has_label l cur x" by simp
      then show ?thesis unfolding s1 using x(2) by (simp add: has_label_add)
    next
      case False
      then have "root_gets_label item_type None pt ffs fp"
        using pt by (auto simp: root_gets_label_def seq_like_def)
      then show ?thesis unfolding s1 using x(2) by (simp add: has_label_add)
    qed
    have cq: "content (tasks s1 ! x) = content (tasks cur ! x)" unfolding s1 by simp
    have "cur' = gates l a e x [] s1" using live(5) by (simp add: label_children_def)
    also have "\<dots> = s1" by (rule gates_idle) (use leaf(2) cq in simp)
    finally show ?thesis using h1 by simp
  qed
qed

lemma child_items_of_frame:
  assumes "same_frame s t"
  shows "child_items_of (tasks t) items i = child_items_of (tasks s) items i"
  using frame_fields(2,3,4) [OF assms] by (simp add: child_items_of_def)

lemma child_items_of_sub:
  assumes "child_items_of ts xs i = []" "set ys \<subseteq> set xs"
  shows "child_items_of ts ys i = []"
  using assms by (auto simp: child_items_of_def filter_empty_conv)

lemma eligible_root_frame:
  assumes "same_frame s t"
  shows "eligible_root (tasks t ! x) = eligible_root (tasks s ! x)"
  using frame_fields(1,2,3) [OF assms, of x] by (simp add: eligible_root_def)

lemma plain_leaf_frame:
  assumes "same_frame s t"
  shows "plain_leaf a t x = plain_leaf a s x"
  using frame_fields(1,9) [OF assms] child_items_of_frame [OF assms]
  by (simp add: plain_leaf_def)

text \<open>Visits of items that are not eligible: the flag stays, no parentless item gains.\<close>

lemma visits_before_first:
  assumes lp: "for_each (visit (Some l) a e hp up hs us st pt items) ys (ffs, fp, s)
                 = Inr (f1, f2, s')"
    and ne: "\<forall>y\<in>set ys. \<not> eligible_root (tasks s ! y)"
  shows "f2 = fp" and "keeps l s s'"
    and "\<And>r. parent_id (tasks s ! r) = None
           \<Longrightarrow> set (labels (tasks s' ! r)) \<subseteq> set (labels (tasks s ! r))"
proof -
  define Inv where "Inv = (\<lambda>t :: bool \<times> bool \<times> state.
     fst (snd t) = fp \<and> keeps l s (snd (snd t))
     \<and> (\<forall>r. parent_id (tasks s ! r) = None
            \<longrightarrow> set (labels (tasks (snd (snd t)) ! r)) \<subseteq> set (labels (tasks s ! r))))"
  have step: "Inv t'"
    if i: "i \<in> set ys" and inv: "Inv t"
      and v: "visit (Some l) a e hp up hs us st pt items i t = Inr t'" for i t t'
  proof -
    obtain x1 x2 cur where t: "t = (x1, x2, cur)" by (cases t) auto
    obtain p1 p2 cur' where t': "t' = (p1, p2, cur')" by (cases t') auto
    from inv t have x2: "x2 = fp" and k: "keeps l s cur"
      and ng: "\<forall>r. parent_id (tasks s ! r) = None
            \<longrightarrow> set (labels (tasks cur ! r)) \<subseteq> set (labels (tasks s ! r))"
      by (simp_all add: Inv_def)
    from k have fr: "same_frame s cur" by (simp add: keeps_def)
    have nel: "\<not> eligible_root (tasks cur ! i)" using ne i eligible_root_frame [OF fr] by simp
    note vv = v [unfolded t t']
    have p2: "p2 = fp" using visit_not_eligible(1) [OF vv nel] x2 by simp
    have k': "keeps l s cur'" by (rule keeps_trans [OF k visit_keeps [OF vv]])
    have ng': "set (labels (tasks cur' ! r)) \<subseteq> set (labels (tasks s ! r))"
      if root: "parent_id (tasks s ! r) = None" for r
    proof -
      have rootc: "parent_id (tasks cur ! r) = None" using root frame_fields(3) [OF fr] by simp
      have "set (labels (tasks cur' ! r)) \<subseteq> set (labels (tasks cur ! r))"
      proof (cases "r = i")
        case True
        then show ?thesis using visit_not_eligible(2) [OF vv nel] rootc by simp
      next
        case False
        then show ?thesis using visit_other_root [OF vv False rootc] by simp
      qed
      also have "\<dots> \<subseteq> set (labels (tasks s ! r))" using ng root by simp
      finally show ?thesis .
    qed
    show ?thesis unfolding t' Inv_def using p2 k' ng' by simp
  qed
  have inv0: "Inv (ffs, fp, s)" by (simp add: Inv_def)
  have invE: "Inv (f1, f2, s')"
    by (rule for_each_invariant [where P = Inv, OF lp inv0]) (use step in blast)
  then show "f2 = fp" and "keeps l s s'" by (simp_all add: Inv_def)
  show "\<And>r. parent_id (tasks s ! r) = None
           \<Longrightarrow> set (labels (tasks s' ! r)) \<subseteq> set (labels (tasks s ! r))"
    using invE by (simp add: Inv_def)
qed

text \<open>Visits with the flag set: it stays set, no parentless item gains.\<close>

lemma visits_flag_set:
  assumes lp: "for_each (visit (Some l) a e hp up hs us None pt items) ys (ffs, True, s)
                 = Inr (f1, f2, s')"
    and pt: "seq_like pt"
    and untag: "\<forall>y\<in>set items. get_type a (content (tasks s ! y)) = None"
    and sub: "set ys \<subseteq> set items"
  shows "f2" and "keeps l s s'"
    and "\<And>r. parent_id (tasks s ! r) = None
           \<Longrightarrow> set (labels (tasks s' ! r)) \<subseteq> set (labels (tasks s ! r))"
proof -
  define Inv where "Inv = (\<lambda>t :: bool \<times> bool \<times> state.
     fst (snd t) \<and> keeps l s (snd (snd t))
     \<and> (\<forall>r. parent_id (tasks s ! r) = None
            \<longrightarrow> set (labels (tasks (snd (snd t)) ! r)) \<subseteq> set (labels (tasks s ! r))))"
  have step: "Inv t'"
    if i: "i \<in> set ys" and inv: "Inv t"
      and v: "visit (Some l) a e hp up hs us None pt items i t = Inr t'" for i t t'
  proof -
    obtain x1 x2 cur where t: "t = (x1, x2, cur)" by (cases t) auto
    obtain p1 p2 cur' where t': "t' = (p1, p2, cur')" by (cases t') auto
    from inv t have x2: "x2" and k: "keeps l s cur"
      and ng: "\<forall>r. parent_id (tasks s ! r) = None
            \<longrightarrow> set (labels (tasks cur ! r)) \<subseteq> set (labels (tasks s ! r))"
      by (simp_all add: Inv_def)
    from k have fr: "same_frame s cur" by (simp add: keeps_def)
    have ut: "\<forall>y\<in>set items. get_type a (content (tasks cur ! y)) = None"
      using untag frame_fields(1) [OF fr] by simp
    have ii: "i \<in> set items" using i sub by blast
    note vu = visit_untyped_section [OF v [unfolded t t'] pt ut ii]
    have k': "keeps l s cur'" by (rule keeps_trans [OF k vu(1)])
    have ng': "set (labels (tasks cur' ! r)) \<subseteq> set (labels (tasks s ! r))"
      if root: "parent_id (tasks s ! r) = None" for r
    proof -
      have rootc: "parent_id (tasks cur ! r) = None" using root frame_fields(3) [OF fr] by simp
      have "set (labels (tasks cur' ! r)) \<subseteq> set (labels (tasks cur ! r))"
        by (rule vu(4) [OF rootc]) (simp add: x2)
      also have "\<dots> \<subseteq> set (labels (tasks s ! r))" using ng root by simp
      finally show ?thesis .
    qed
    show ?thesis unfolding t' Inv_def using vu(2) x2 k' ng' by simp
  qed
  have inv0: "Inv (ffs, True, s)" by (simp add: Inv_def)
  have invE: "Inv (f1, f2, s')"
    by (rule for_each_invariant [where P = Inv, OF lp inv0]) (use step in blast)
  then show "f2" and "keeps l s s'" by (simp_all add: Inv_def)
  show "\<And>r. parent_id (tasks s ! r) = None
           \<Longrightarrow> set (labels (tasks s' ! r)) \<subseteq> set (labels (tasks s ! r))"
    using invE by (simp add: Inv_def)
qed

text \<open>An eligible item without open sub-tasks and without a start date keeps the label.\<close>

lemma visits_keep_leaf_label:
  assumes lp: "for_each (visit (Some l) a e hp up hs us None pt items) ys (ffs, fp, s)
                 = Inr (f1, f2, s')"
    and pt: "seq_like pt"
    and untag: "\<forall>y\<in>set items. get_type a (content (tasks s ! y)) = None"
    and sub: "set ys \<subseteq> set items"
    and x: "eligible_root (tasks s ! x)" "x < length (tasks s)"
    and leaf: "child_items_of (tasks s) items x = []"
      "hide_future a > 0 \<or> find_str ''start='' (content (tasks s ! x)) = None"
    and has: "has_label l s x"
  shows "has_label l s' x"
proof -
  define Inv where "Inv = (\<lambda>t :: bool \<times> bool \<times> state.
     keeps l s (snd (snd t)) \<and> has_label l (snd (snd t)) x)"
  have step: "Inv t'"
    if i: "i \<in> set ys" and inv: "Inv t"
      and v: "visit (Some l) a e hp up hs us None pt items i t = Inr t'" for i t t'
  proof -
    obtain x1 x2 cur where t: "t = (x1, x2, cur)" by (cases t) auto
    obtain p1 p2 cur' where t': "t' = (p1, p2, cur')" by (cases t') auto
    from inv t have k: "keeps l s cur" and h: "has_label l cur x" by (simp_all add: Inv_def)
    from k have fr: "same_frame s cur" by (simp add: keeps_def)
    note vv = v [unfolded t t']
    have k': "keeps l s cur'" by (rule keeps_trans [OF k visit_keeps [OF vv]])
    have elc: "eligible_root (tasks cur ! x)" using x(1) eligible_root_frame [OF fr] by simp
    have h': "has_label l cur' x"
    proof (cases "x = i")
      case True
      have ut: "\<forall>y\<in>set items. get_type a (content (tasks cur ! y)) = None"
        using untag frame_fields(1) [OF fr] by simp
      have xi: "x \<in> set items" using True i sub by blast
      have xl: "x < length (tasks cur)" using x(2) frame_fields(9) [OF fr] by simp
      have lf: "child_items_of (tasks cur) items x = []"
        using leaf(1) child_items_of_frame [OF fr] by simp
      have idle: "hide_future a > 0 \<or> find_str ''start='' (content (tasks cur ! x)) = None"
        using leaf(2) frame_fields(1) [OF fr] by simp
      show ?thesis
        by (rule visit_leaf_label [OF vv [folded True] pt ut xi xl elc lf idle]) (simp add: h)
    next
      case False
      have "parent_id (tasks cur ! x) = None" using elc by (simp add: eligible_root_def)
      from visit_other_root [OF vv False this] h show ?thesis by (simp add: has_label_def)
    qed
    show ?thesis unfolding t' Inv_def using k' h' by simp
  qed
  have inv0: "Inv (ffs, fp, s)" using has by (simp add: Inv_def)
  have "Inv (f1, f2, s')"
    by (rule for_each_invariant [where P = Inv, OF lp inv0]) (use step in blast)
  then show ?thesis by (simp add: Inv_def)
qed

lemma process_section_first:
  assumes ps: "process_section (Some l) a e hp up pt pi sr (False, s) = Inr (f', s')"
    and pt: "seq_like pt"
    and st: "get_section_type a (Some (section_of s sr)) = None"
    and untag: "\<forall>x\<in>set pi. get_type a (content (tasks s ! x)) = None"
    and fnd: "find (\<lambda>x. eligible_root (tasks s ! x)) (section_items s sr pi) = Some x0"
    and bound: "\<forall>x\<in>set pi. x < length (tasks s)"
  shows "\<And>r. parent_id (tasks s ! r) = None \<Longrightarrow> r \<noteq> x0
           \<Longrightarrow> set (labels (tasks s' ! r)) \<subseteq> set (labels (tasks s ! r))"
    and "plain_leaf a s x0 \<Longrightarrow> has_label l s' x0"
proof -
  let ?items = "section_items s sr pi"
  from process_section_loop [OF ps] obtain hs ffs' where
    loop: "for_each (visit (Some l) a e hp up (fst hs) (snd hs) None pt ?items)
             ?items (False, False, s) = Inr (ffs', f', s')"
    unfolding st by blast
  from find_split [OF fnd] obtain pre post where
    sp: "?items = pre @ x0 # post" and el: "eligible_root (tasks s ! x0)"
    and ne: "\<forall>y\<in>set pre. \<not> eligible_root (tasks s ! y)" by blast
  define V where "V = visit (Some l) a e hp up (fst hs) (snd hs) None pt ?items"
  have "for_each V (pre @ x0 # post) (False, False, s) = Inr (ffs', f', s')"
    using loop sp unfolding V_def by simp
  then obtain t1 where
    l1: "for_each V pre (False, False, s) = Inr t1"
    and l12: "for_each V (x0 # post) t1 = Inr (ffs', f', s')"
    unfolding for_each_append by blast
  from l12 obtain t2 where
    v0: "V x0 t1 = Inr t2"
    and l2: "for_each V post t2 = Inr (ffs', f', s')"
    by (cases "V x0 t1") simp_all
  obtain a1 b1 s1 where t1: "t1 = (a1, b1, s1)" by (cases t1) auto
  obtain a2 b2 s2 where t2: "t2 = (a2, b2, s2)" by (cases t2) auto
  have sub: "set ?items \<subseteq> set pi" by (auto simp: section_items_def)
  have x0i: "x0 \<in> set ?items" using sp by simp
  have x0l: "x0 < length (tasks s)" using x0i sub bound by blast
  have ut: "\<forall>y\<in>set ?items. get_type a (content (tasks s ! y)) = None" using untag sub by blast
  have ibound: "set ?items \<subseteq> set [0..<length (tasks s)]" using sub bound by auto
  note p1 = visits_before_first [OF l1 [unfolded V_def t1] ne]
  have b1: "b1 = False" by (rule p1(1))
  from p1(2) have fr1: "same_frame s s1" by (simp add: keeps_def)
  have ut1: "\<forall>y\<in>set ?items. get_type a (content (tasks s1 ! y)) = None"
    using ut frame_fields(1) [OF fr1] by simp
  have el1: "eligible_root (tasks s1 ! x0)" using el eligible_root_frame [OF fr1] by simp
  note vv = v0 [unfolded V_def t1 t2 b1]
  note p2 = visit_untyped_section [OF vv pt ut1 x0i]
  have b2: b2 using p2(3) el1 by simp
  have k2: "keeps l s s2" by (rule keeps_trans [OF p1(2) p2(1)])
  then have fr2: "same_frame s s2" by (simp add: keeps_def)
  have ut2: "\<forall>y\<in>set ?items. get_type a (content (tasks s2 ! y)) = None"
    using ut frame_fields(1) [OF fr2] by simp
  have psub: "set post \<subseteq> set ?items" using sp by auto
  have l2': "for_each (visit (Some l) a e hp up (fst hs) (snd hs) None pt ?items) post
               (a2, True, s2) = Inr (ffs', f', s')"
    using l2 b2 unfolding V_def t2 by simp
  note p3 = visits_flag_set [OF l2' pt ut2 psub]
  show "set (labels (tasks s' ! r)) \<subseteq> set (labels (tasks s ! r))"
    if root: "parent_id (tasks s ! r) = None" and r: "r \<noteq> x0" for r
  proof -
    have r1: "parent_id (tasks s1 ! r) = None" using root frame_fields(3) [OF fr1] by simp
    have r2: "parent_id (tasks s2 ! r) = None" using root frame_fields(3) [OF fr2] by simp
    have "set (labels (tasks s' ! r)) \<subseteq> set (labels (tasks s2 ! r))" by (rule p3(3) [OF r2])
    also have "\<dots> \<subseteq> set (labels (tasks s1 ! r))" by (rule p2(4) [OF r1]) (simp add: r)
    also have "\<dots> \<subseteq> set (labels (tasks s ! r))" by (rule p1(3) [OF root])
    finally show ?thesis .
  qed
  show "has_label l s' x0" if leaf: "plain_leaf a s x0"
  proof -
    from leaf have c0: "child_items_of (tasks s) [0..<length (tasks s)] x0 = []"
      and idle: "hide_future a > 0 \<or> find_str ''start='' (content (tasks s ! x0)) = None"
      by (simp_all add: plain_leaf_def)
    have c: "child_items_of (tasks s) ?items x0 = []"
      by (rule child_items_of_sub [OF c0 ibound])
    have c1: "child_items_of (tasks s1) ?items x0 = []"
      using c child_items_of_frame [OF fr1] by simp
    have c2: "child_items_of (tasks s2) ?items x0 = []"
      using c child_items_of_frame [OF fr2] by simp
    have idle1: "hide_future a > 0 \<or> find_str ''start='' (content (tasks s1 ! x0)) = None"
      using idle frame_fields(1) [OF fr1] by simp
    have idle2: "hide_future a > 0 \<or> find_str ''start='' (content (tasks s2 ! x0)) = None"
      using idle frame_fields(1) [OF fr2] by simp
    have xl1: "x0 < length (tasks s1)" using x0l frame_fields(9) [OF fr1] by simp
    have xl2: "x0 < length (tasks s2)" using x0l frame_fields(9) [OF fr2] by simp
    have el2: "eligible_root (tasks s2 ! x0)" using el eligible_root_frame [OF fr2] by simp
    have h2: "has_label l s2 x0"
      by (rule visit_leaf_label [OF vv pt ut1 x0i xl1 el1 c1 idle1]) simp
    show ?thesis
      by (rule visits_keep_leaf_label [OF l2' pt ut2 psub el2 xl2 c2 idle2 h2])
  qed
qed

lemma process_section_keeps_leaf_label:
  assumes ps: "process_section (Some l) a e hp up pt pi sr (ffp, s) = Inr (f', s')"
    and pt: "seq_like pt"
    and st: "get_section_type a (Some (section_of s sr)) = None"
    and untag: "\<forall>x\<in>set pi. get_type a (content (tasks s ! x)) = None"
    and bound: "\<forall>x\<in>set pi. x < length (tasks s)"
    and x: "eligible_root (tasks s ! x)" "x < length (tasks s)" "plain_leaf a s x"
      "has_label l s x"
  shows "has_label l s' x"
proof -
  let ?items = "section_items s sr pi"
  from process_section_loop [OF ps] obtain hs ffs' where
    loop: "for_each (visit (Some l) a e hp up (fst hs) (snd hs) None pt ?items)
             ?items (False, ffp, s) = Inr (ffs', f', s')"
    unfolding st by blast
  have sub: "set ?items \<subseteq> set pi" by (auto simp: section_items_def)
  have ut: "\<forall>y\<in>set ?items. get_type a (content (tasks s ! y)) = None" using untag sub by blast
  have ibound: "set ?items \<subseteq> set [0..<length (tasks s)]" using sub bound by auto
  from x(3) have c0: "child_items_of (tasks s) [0..<length (tasks s)] x = []"
    and idle: "hide_future a > 0 \<or> find_str ''start='' (content (tasks s ! x)) = None"
    by (simp_all add: plain_leaf_def)
  have c: "child_items_of (tasks s) ?items x = []" by (rule child_items_of_sub [OF c0 ibound])
  show ?thesis
    by (rule visits_keep_leaf_label [OF loop pt ut subset_refl x(1,2) c idle x(4)])
qed

lemma process_project_first:
  assumes pp: "process_project (Some l) a e k s = Inr s'"
    and pt: "seq_like (get_project_type a (projects s ! k))"
    and nst: "get_section_type a (Some create_none_section) = None"
    and sec: "\<forall>x\<in>set (project_sections_of s k). get_section_type a (Some (sections s ! x)) = None"
    and untag: "\<forall>x\<in>set (project_items_of s k). get_type a (content (tasks s ! x)) = None"
    and fnd: "find (\<lambda>x. eligible_root (tasks s ! x))
                (section_items s None (project_items_of s k)) = Some x0"
  shows "x0 \<in> set (project_items_of s k)" and "section_id (tasks s ! x0) = None"
    and "eligible_root (tasks s ! x0)"
    and "plain_leaf a s x0 \<Longrightarrow> has_label l s' x0"
    and "\<And>r. parent_id (tasks s ! r) = None \<Longrightarrow> r \<noteq> x0
           \<Longrightarrow> has_label l s' r \<Longrightarrow> has_label l s r"
proof -
  let ?pt = "get_project_type a (projects s ! k)"
  let ?pi = "project_items_of s k"
  from find_split [OF fnd] have x0i: "x0 \<in> set (section_items s None ?pi)"
    and el: "eligible_root (tasks s ! x0)" by auto
  from x0i have x0f: "x0 < length (tasks s)" "project_id (tasks s ! x0) = p_id (projects s ! k)"
    "section_id (tasks s ! x0) = None"
    unfolding section_items_None by simp_all
  show x0p: "x0 \<in> set ?pi" using x0f(1,2) by (simp add: project_items_of_def)
  show x0s: "section_id (tasks s ! x0) = None" by (rule x0f(3))
  show "eligible_root (tasks s ! x0)" by (rule el)
  have bound: "\<forall>x\<in>set ?pi. x < length (tasks s)" by (simp add: project_items_of_def)
  from x0p bound have x0l: "x0 < length (tasks s)" by blast
  from process_project_loops [OF pp] obtain f1 s1 f2 where
    p1: "process_section (Some l) a e False False ?pt ?pi None (False, s) = Inr (f1, s1)"
    and p2: "for_each (process_section (Some l) a e False False ?pt ?pi)
           (map Some (filter (\<lambda>x. s_project_id (sections s1 ! x) = p_id (projects s ! k))
                        [0..<length (sections s1)])) (f1, s1) = Inr (f2, s')"
    by blast
  have nst': "get_section_type a (Some (section_of s None)) = None"
    using nst by (simp add: section_of_def)
  note n = process_section_untyped [OF p1 pt nst' untag]
  note m = process_section_first [OF p1 pt nst' untag fnd bound]
  have f1: f1 using n(3) x0i el by blast
  have k1: "keeps l s s1" by (rule n(1))
  then have fr1: "same_frame s s1" by (simp add: keeps_def)
  then have secs: "sections s1 = sections s" by (simp add: same_frame_def)
  have p2': "for_each (process_section (Some l) a e False False ?pt ?pi)
           (map Some (project_sections_of s k)) (True, s1) = Inr (f2, s')"
    using p2 f1 by (simp add: secs project_sections_of_def)
  define Inv where "Inv = (\<lambda>t :: bool \<times> state.
     keeps l s1 (snd t) \<and> fst t
     \<and> (\<forall>r. parent_id (tasks s1 ! r) = None
            \<longrightarrow> set (labels (tasks (snd t) ! r)) \<subseteq> set (labels (tasks s1 ! r)))
     \<and> (plain_leaf a s x0 \<longrightarrow> has_label l (snd t) x0))"
  have step: "Inv t'"
    if x: "x \<in> set (map Some (project_sections_of s k))" and inv: "Inv t"
      and v: "process_section (Some l) a e False False ?pt ?pi x t = Inr t'"
    for x t t'
  proof -
    obtain fp cur where t: "t = (fp, cur)" by (cases t) auto
    obtain fp' cur' where t': "t' = (fp', cur')" by (cases t') auto
    from x obtain j where j: "x = Some j" "j \<in> set (project_sections_of s k)" by auto
    from inv t have kc: "keeps l s1 cur" and fp: fp
      and ng: "\<forall>r. parent_id (tasks s1 ! r) = None
            \<longrightarrow> set (labels (tasks cur ! r)) \<subseteq> set (labels (tasks s1 ! r))"
      and hl: "plain_leaf a s x0 \<longrightarrow> has_label l cur x0"
      by (simp_all add: Inv_def)
    have ks: "keeps l s cur" by (rule keeps_trans [OF k1 kc])
    then have fr: "same_frame s cur" by (simp add: keeps_def)
    from kc have frc: "same_frame s1 cur" by (simp add: keeps_def)
    have st: "get_section_type a (Some (section_of cur x)) = None"
      using sec j fr by (simp add: section_of_def same_frame_def)
    have ut: "\<forall>y\<in>set ?pi. get_type a (content (tasks cur ! y)) = None"
      using untag frame_fields(1) [OF fr] by simp
    have bd: "\<forall>y\<in>set ?pi. y < length (tasks cur)"
      using bound frame_fields(9) [OF fr] by simp
    note vv = v [unfolded t t']
    note m = process_section_untyped [OF vv pt st ut]
    have k': "keeps l s1 cur'" by (rule keeps_trans [OF kc m(1)])
    have ng': "set (labels (tasks cur' ! r)) \<subseteq> set (labels (tasks s1 ! r))"
      if root: "parent_id (tasks s1 ! r) = None" for r
    proof -
      have rootc: "parent_id (tasks cur ! r) = None"
        using root frame_fields(3) [OF frc] by simp
      have "set (labels (tasks cur' ! r)) \<subseteq> set (labels (tasks cur ! r))"
        by (rule m(4) [OF rootc]) (simp add: fp)
      also have "\<dots> \<subseteq> set (labels (tasks s1 ! r))" using ng root by simp
      finally show ?thesis .
    qed
    have hl': "has_label l cur' x0" if leaf: "plain_leaf a s x0"
    proof -
      have elc: "eligible_root (tasks cur ! x0)" using el eligible_root_frame [OF fr] by simp
      have xl: "x0 < length (tasks cur)" using x0l frame_fields(9) [OF fr] by simp
      have lf: "plain_leaf a cur x0" using leaf plain_leaf_frame [OF fr] by simp
      have h: "has_label l cur x0" using hl leaf by simp
      show ?thesis
        by (rule process_section_keeps_leaf_label [OF vv pt st ut bd elc xl lf h])
    qed
    show ?thesis unfolding t' Inv_def using k' m(2) fp ng' hl' by simp
  qed
  have inv0: "Inv (True, s1)" using m(2) by (simp add: Inv_def)
  have invE: "Inv (f2, s')"
    by (rule for_each_invariant [where P = Inv, OF p2' inv0]) (use step in blast)
  show "has_label l s' x0" if "plain_leaf a s x0"
    using invE that by (simp add: Inv_def)
  show "has_label l s r"
    if root: "parent_id (tasks s ! r) = None" and r: "r \<noteq> x0" and h: "has_label l s' r" for r
  proof -
    have root1: "parent_id (tasks s1 ! r) = None" using root frame_fields(3) [OF fr1] by simp
    have a: "set (labels (tasks s1 ! r)) \<subseteq> set (labels (tasks s ! r))" by (rule m(1) [OF root r])
    have b: "set (labels (tasks s' ! r)) \<subseteq> set (labels (tasks s1 ! r))"
      using invE root1 by (simp add: Inv_def)
    from h a b show ?thesis by (auto simp: has_label_def)
  qed
qed

section \<open>Completed items and headers\<close>

text \<open>
  C2, as the code has it. The labelling part of the loop body skips a completed item
  without touching anything: its labels stay as they are. For an item that is not
  completed and whose title starts with the header flag it removes the label from the
  item. In both cases no other task changes and both first-found flags stay as they were.
\<close>

theorem label_item_skips:
  assumes "i < length (tasks s)" and "labels_ok s"
    and "is_completed (tasks s ! i) \<or> startswith_star (content (tasks s ! i))"
  shows "\<exists>s'. label_item l a e section_type project_type items i child_items
                 (first_found_section, first_found_project, s)
               = Inr (first_found_section, first_found_project, s')
            \<and> (is_completed (tasks s ! i) \<longrightarrow> s' = s)
            \<and> (\<not> is_completed (tasks s ! i) \<longrightarrow>
                  \<not> has_label l s' i \<and> labels (tasks s' ! i) = remove1 l (labels (tasks s ! i)))
            \<and> (\<forall>j. j \<noteq> i \<longrightarrow> tasks s' ! j = tasks s ! j)"
proof (cases "is_completed (tasks s ! i)")
  case True
  then show ?thesis by (simp add: label_item_def)
next
  case False
  with assms(3) have h: "startswith_star (content (tasks s ! i))" by simp
  have "label_item l a e section_type project_type items i child_items
          (first_found_section, first_found_project, s)
        = Inr (first_found_section, first_found_project, remove_label i l s)"
    using False h by (simp add: label_item_def)
  moreover have "\<not> has_label l (remove_label i l s) i"
    using assms(1,2) by (simp add: has_label_remove_ok)
  moreover have "labels (tasks (remove_label i l s) ! i) = remove1 l (labels (tasks s ! i))"
    using assms(1) by (simp add: labels_remove_label)
  moreover have "\<forall>j. j \<noteq> i \<longrightarrow> tasks (remove_label i l s) ! j = tasks s ! j"
    by (simp add: tasks_remove_label)
  ultimately show ?thesis using False by simp
qed

theorem label_item_skips_witness:
  "1 < length (tasks header_labelled) \<and> labels_ok header_labelled
   \<and> startswith_star (content (tasks header_labelled ! 0))
   \<and> \<not> is_completed (tasks header_labelled ! 0)
   \<and> (\<exists>s'. label_item ''next'' ex_args ex_env None None [0, 1] 0 [] (False, False, header_labelled)
               = Inr (False, False, s')
            \<and> \<not> has_label ''next'' s' 0 \<and> tasks s' ! 1 = tasks header_labelled ! 1)"
proof -
  have h1: "0 < length (tasks header_labelled)" by code_simp
  have h2: "labels_ok header_labelled" by code_simp
  have h3: "is_completed (tasks header_labelled ! 0)
            \<or> startswith_star (content (tasks header_labelled ! 0))" by code_simp
  have h4: "\<not> is_completed (tasks header_labelled ! 0)" by code_simp
  have h5: "startswith_star (content (tasks header_labelled ! 0))" by code_simp
  have h6: "1 < length (tasks header_labelled)" by code_simp
  show ?thesis
    using label_item_skips [OF h1 h2 h3, where l = "''next''" and a = ex_args and e = ex_env
        and section_type = None and project_type = None and items = "[0, 1]"
        and child_items = "[]" and first_found_section = False
        and first_found_project = False]
      h2 h4 h5 h6 by auto
qed

text \<open>
  C2 as the specification states it fails for completed items: the pass leaves the label
  on a completed item.
\<close>

theorem completed_item_keeps_label:
  "is_completed (tasks done_labelled ! 0)
   \<and> labels_after (autodoist_magic ex_args ex_env (Some ''next'') done_labelled) = [[''next'']]"
  by code_simp

section \<open>Sequential and parallel propagation\<close>

text \<open>
  C3, as the code has it. Take an item that is not its own parent and whose active type is
  sequential or p-s, and the propagation step of its visit. If the item holds the label
  and has a non-completed, non-header child, the label ends on the first such child, the
  item no longer holds it and no other such child holds it. Otherwise no non-completed,
  non-header child holds the label afterwards and the item is as it was. In both cases
  at most one non-completed, non-header child holds the label after the step. Every task
  other than the item and its non-completed, non-header children is left as it was: in
  particular completed children and header children are not touched.
\<close>

theorem sequential_single_live_branch:
  assumes "active_type_of hierarchy_types = Some Sequential
           \<or> active_type_of hierarchy_types = Some P_S"
    and "i < length (tasks s)" and "\<forall>x\<in>set items. x < length (tasks s)" and "distinct items"
    and "parent_id (tasks s ! i) \<noteq> Some (i_id (tasks s ! i))" and "labels_ok s"
    and "s' = label_children l hierarchy_types i (child_items_of (tasks s) items i) s"
  shows "(if has_label l s i \<and> live_child_items s items i \<noteq> []
          then has_label l s' (hd (live_child_items s items i)) \<and> \<not> has_label l s' i
               \<and> (\<forall>c\<in>set (tl (live_child_items s items i)). \<not> has_label l s' c)
          else (\<forall>c\<in>set (live_child_items s items i). \<not> has_label l s' c)
               \<and> has_label l s' i = has_label l s i)
         \<and> length (filter (has_label l s') (live_child_items s items i)) \<le> 1
         \<and> (\<forall>j. j \<noteq> i \<and> j \<notin> set (live_child_items s items i)
                \<longrightarrow> tasks s' ! j = tasks s ! j)"
proof -
  let ?cs = "child_items_of (tasks s) items i"
  let ?live = "live_child_items s items i"
  have side: "\<forall>c\<in>set ?cs. c < length (tasks s) \<and> c \<noteq> i \<and> \<not> is_completed (tasks s ! c)"
    "distinct ?cs"
    using child_side [OF assms(3,4,5)] by auto
  have dl: "distinct ?live" using side(2) by (simp add: live_child_items_def live_children_def)
  have inl: "i \<notin> set ?live" using side(1) by (auto simp: live_child_items_def live_children_def)
  have s': "s' = (if ?cs = [] then s else pass_down l i ?cs s)"
    using assms(1,7) by (auto simp: label_children_def Let_def)
  have first: "if has_label l s i \<and> ?live \<noteq> []
          then has_label l s' (hd ?live) \<and> \<not> has_label l s' i
               \<and> (\<forall>c\<in>set (tl ?live). \<not> has_label l s' c)
          else (\<forall>c\<in>set ?live. \<not> has_label l s' c) \<and> has_label l s' i = has_label l s i"
  proof (cases "?live = []")
    case True
    then have "pass_down l i ?cs s = s"
      by (simp add: pass_down_no_live live_child_items_def)
    with True s' show ?thesis by simp
  next
    case False
    then have ne: "?cs \<noteq> []" by (auto simp: live_child_items_def live_children_def)
    show ?thesis
    proof (cases "has_label l s i")
      case True
      from pass_down_live [OF True assms(2) side(1) side(2) assms(6)] False
      show ?thesis using True s' ne by (simp add: live_child_items_def)
    next
      case nl: False
      have "\<forall>c\<in>set ?cs. c < length (tasks s) \<and> c \<noteq> i" using side(1) by blast
      from pass_down_idle [OF nl assms(2) this assms(6)] inl
      show ?thesis using nl s' ne by (simp add: live_child_items_def has_label_def)
    qed
  qed
  have "length (filter (has_label l s') ?live) \<le> 1"
  proof (cases "has_label l s i \<and> ?live \<noteq> []")
    case True
    then obtain c cs where lc: "?live = c # cs" by (cases ?live) auto
    with first True have "\<forall>x\<in>set cs. \<not> has_label l s' x" by simp
    then have "filter (has_label l s') cs = []" by (simp add: filter_empty_conv)
    with lc show ?thesis by simp
  next
    case False
    with first have "\<forall>x\<in>set ?live. \<not> has_label l s' x" by (simp split: if_splits)
    then have "filter (has_label l s') ?live = []" by (simp add: filter_empty_conv)
    then show ?thesis by simp
  qed
  moreover have "\<forall>j. j \<noteq> i \<and> j \<notin> set ?live \<longrightarrow> tasks s' ! j = tasks s ! j"
  proof (intro allI impI)
    fix j
    assume j: "j \<noteq> i \<and> j \<notin> set ?live"
    have "keeps l s s'" unfolding assms(7) by (rule keeps_label_children)
    then have sk: "skel (tasks s' ! j) = skel (tasks s ! j)"
      by (simp add: keeps_def same_frame_def)
    have lb: "labels (tasks s' ! j) = labels (tasks s ! j)"
    proof (cases "?live = []")
      case True
      then have "pass_down l i ?cs s = s"
        by (simp add: pass_down_no_live live_child_items_def)
      with s' show ?thesis by simp
    next
      case False
      then have ne: "?cs \<noteq> []" by (auto simp: live_child_items_def live_children_def)
      show ?thesis
      proof (cases "has_label l s i")
        case True
        from pass_down_live [OF True assms(2) side(1) side(2) assms(6)] False j
        show ?thesis using s' ne by (simp add: live_child_items_def)
      next
        case nl: False
        have "\<forall>c\<in>set ?cs. c < length (tasks s) \<and> c \<noteq> i" using side(1) by blast
        from pass_down_idle [OF nl assms(2) this assms(6)] j
        show ?thesis using s' ne by (simp add: live_child_items_def)
      qed
    qed
    show "tasks s' ! j = tasks s ! j" by (rule item_eqI [OF sk lb])
  qed
  ultimately show ?thesis using first by blast
qed

theorem sequential_single_live_branch_witness:
  "active_type_of [Some Sequential, None, None] = Some Sequential
   \<and> distinct [0, 1, 2, 3, 4::nat] \<and> labels_ok seq_mixed \<and> has_label ''next'' seq_mixed 0
   \<and> child_items_of (tasks seq_mixed) [0, 1, 2, 3, 4] 0 = [1, 2, 4]
   \<and> live_child_items seq_mixed [0, 1, 2, 3, 4] 0 = [2, 4]
   \<and> has_label ''next'' (label_children ''next'' [Some Sequential, None, None] 0
          (child_items_of (tasks seq_mixed) [0, 1, 2, 3, 4] 0) seq_mixed) 2
   \<and> \<not> has_label ''next'' (label_children ''next'' [Some Sequential, None, None] 0
          (child_items_of (tasks seq_mixed) [0, 1, 2, 3, 4] 0) seq_mixed) 0
   \<and> \<not> has_label ''next'' (label_children ''next'' [Some Sequential, None, None] 0
          (child_items_of (tasks seq_mixed) [0, 1, 2, 3, 4] 0) seq_mixed) 4
   \<and> tasks (label_children ''next'' [Some Sequential, None, None] 0
          (child_items_of (tasks seq_mixed) [0, 1, 2, 3, 4] 0) seq_mixed) ! 1
       = tasks seq_mixed ! 1
   \<and> tasks (label_children ''next'' [Some Sequential, None, None] 0
          (child_items_of (tasks seq_mixed) [0, 1, 2, 3, 4] 0) seq_mixed) ! 3
       = tasks seq_mixed ! 3"
proof -
  have h1: "active_type_of [Some Sequential, None, None] = Some Sequential
            \<or> active_type_of [Some Sequential, None, None] = Some P_S" by code_simp
  have h1': "active_type_of [Some Sequential, None, None] = Some Sequential" by code_simp
  have h2: "0 < length (tasks seq_mixed)" by code_simp
  have h3: "\<forall>x\<in>set [0, 1, 2, 3, 4]. x < length (tasks seq_mixed)" by code_simp
  have h4: "distinct [0, 1, 2, 3, 4::nat]" by code_simp
  have h5: "parent_id (tasks seq_mixed ! 0) \<noteq> Some (i_id (tasks seq_mixed ! 0))"
    by code_simp
  have h6: "labels_ok seq_mixed" by code_simp
  have ch: "child_items_of (tasks seq_mixed) [0, 1, 2, 3, 4] 0 = [1, 2, 4]" by code_simp
  have lv: "live_child_items seq_mixed [0, 1, 2, 3, 4] 0 = [2, 4]" by code_simp
  have hl: "has_label ''next'' seq_mixed 0" by code_simp
  show ?thesis
    using sequential_single_live_branch [OF h1 h2 h3 h4 h5 h6 refl, where l = "''next''"]
      h1' h4 h6 lv hl ch by simp
qed

text \<open>
  C3 as the specification states it fails: after a pass over a sequential item whose
  completed child B still carries the label, both children A and B hold it.
\<close>

theorem two_children_hold_label:
  "get_type ex_args ''Task--'' = Some Sequential
   \<and> map parent_id (tasks seq_done_child) = [None, Some 1, Some 1]
   \<and> labels_after (autodoist_magic ex_args ex_env (Some ''next'') seq_done_child)
       = [[], [''next''], [''next'']]"
  by code_simp

text \<open>
  C4, as the code has it. Take an item that is not its own parent, has at least one
  non-completed child, and whose active type is parallel, or s-p while the item holds
  the label. Right after the propagation step of its visit the item does not hold the
  label and every non-completed, non-header child holds it. (Later visits of the same
  pass move the label further down or remove it again.)
\<close>

theorem parallel_fan_out:
  assumes "active_type_of hierarchy_types = Some Parallel
           \<or> (active_type_of hierarchy_types = Some S_P \<and> has_label l s i)"
    and "i < length (tasks s)" and "\<forall>x\<in>set items. x < length (tasks s)" and "distinct items"
    and "parent_id (tasks s ! i) \<noteq> Some (i_id (tasks s ! i))" and "labels_ok s"
    and "child_items_of (tasks s) items i \<noteq> []"
    and "s' = label_children l hierarchy_types i (child_items_of (tasks s) items i) s"
  shows "\<not> has_label l s' i \<and> (\<forall>c\<in>set (live_child_items s items i). has_label l s' c)"
proof -
  let ?cs = "child_items_of (tasks s) items i"
  let ?s1 = "remove_label i l s"
  have side: "\<forall>c\<in>set ?cs. c < length (tasks s) \<and> c \<noteq> i \<and> \<not> is_completed (tasks s ! c)"
    using child_side [OF assms(3,4,5)] by auto
  have s': "s' = fan_out l ?cs ?s1"
    using assms(1,7,8) by (auto simp: label_children_def Let_def has_label_def)
  have "\<forall>c\<in>set ?cs. c < length (tasks ?s1) \<and> \<not> is_completed (tasks ?s1 ! c)"
    using side by simp
  from fan_out_result [OF this, of l]
  have fo: "\<forall>c\<in>set (live_children s ?cs). has_label l s' c"
    "\<forall>j. j \<notin> set (live_children s ?cs) \<longrightarrow> labels (tasks s' ! j) = labels (tasks ?s1 ! j)"
    unfolding s' by simp_all
  have "i \<notin> set (live_children s ?cs)" using side by (auto simp: live_children_def)
  with fo(2) have "labels (tasks s' ! i) = labels (tasks ?s1 ! i)" by blast
  moreover have "\<not> has_label l ?s1 i" using assms(2,6) by (simp add: has_label_remove_ok)
  ultimately have "\<not> has_label l s' i" by (simp add: has_label_def)
  with fo(1) show ?thesis by (simp add: live_child_items_def)
qed

theorem parallel_fan_out_witness:
  "active_type_of [Some Parallel, None, None] = Some Parallel
   \<and> distinct [0, 1, 2::nat] \<and> labels_ok par_labelled
   \<and> child_items_of (tasks par_labelled) [0, 1, 2] 0 \<noteq> []
   \<and> live_child_items par_labelled [0, 1, 2] 0 = [1, 2]
   \<and> \<not> has_label ''next'' (label_children ''next'' [Some Parallel, None, None] 0
          (child_items_of (tasks par_labelled) [0, 1, 2] 0) par_labelled) 0
   \<and> has_label ''next'' (label_children ''next'' [Some Parallel, None, None] 0
          (child_items_of (tasks par_labelled) [0, 1, 2] 0) par_labelled) 1
   \<and> has_label ''next'' (label_children ''next'' [Some Parallel, None, None] 0
          (child_items_of (tasks par_labelled) [0, 1, 2] 0) par_labelled) 2"
proof -
  have h1': "active_type_of [Some Parallel, None, None] = Some Parallel" by code_simp
  then have h1: "active_type_of [Some Parallel, None, None] = Some Parallel
            \<or> (active_type_of [Some Parallel, None, None] = Some S_P
                \<and> has_label ''next'' par_labelled 0)" by simp
  have h2: "0 < length (tasks par_labelled)" by code_simp
  have h3: "\<forall>x\<in>set [0, 1, 2]. x < length (tasks par_labelled)" by code_simp
  have h4: "distinct [0, 1, 2::nat]" by code_simp
  have h5: "parent_id (tasks par_labelled ! 0) \<noteq> Some (i_id (tasks par_labelled ! 0))"
    by code_simp
  have h6: "labels_ok par_labelled" by code_simp
  have h7: "child_items_of (tasks par_labelled) [0, 1, 2] 0 \<noteq> []" by code_simp
  have lv: "live_child_items par_labelled [0, 1, 2] 0 = [1, 2]" by code_simp
  show ?thesis
    using parallel_fan_out [OF h1 h2 h3 h4 h5 h6 h7 refl] h1' h4 h6 h7 lv by simp
qed

text \<open>
  C4 as the specification states it fails: at the end of a pass over a parallel item with
  a child A and a grandchild G, the child A, which is neither completed nor a header,
  does not hold the label; the grandchild does.
\<close>

theorem child_loses_label_to_grandchild:
  "get_type ex_args ''Task//'' = Some Parallel
   \<and> map parent_id (tasks par_chain) = [None, Some 1, Some 2]
   \<and> map is_completed (tasks par_chain) = [False, False, False]
   \<and> labels_after (autodoist_magic ex_args ex_env (Some ''next'') par_chain)
       = [[], [], [''next'']]"
  by code_simp

section \<open>Headers never receive the label\<close>

text \<open>
  C5, as the code has it. The labelling part of a visit gives the label to no task whose
  title starts with the header flag: such a task holds a label afterwards only if it
  held it before, whatever the types of the visited item, its section and its project
  are. (Descendants of a header are not protected, and a label that a completed header
  carries is not removed.)
\<close>

theorem header_never_gains_label:
  assumes "startswith_star (content (tasks s ! j))"
    and "label_item l a e section_type project_type items i child_items
           (first_found_section, first_found_project, s) = Inr (f1, f2, s')"
  shows "has_label l s' j \<longrightarrow> has_label l s j"
  using label_item_header_no_gain [OF assms] by (auto simp: has_label_def)

theorem header_never_gains_label_witness:
  "startswith_star (content (tasks under_header_stale ! 0))
   \<and> \<not> isl (label_item ''next'' ex_args ex_env None None [0, 1, 2] 1 [2]
               (False, False, under_header_stale))
   \<and> has_label ''next'' (snd (snd (projr (label_item ''next'' ex_args ex_env None None
          [0, 1, 2] 1 [2] (False, False, under_header_stale))))) 2
   \<and> has_label ''next'' (snd (snd (projr (label_item ''next'' ex_args ex_env None None
          [0, 1, 2] 1 [2] (False, False, under_header_stale))))) 0
   \<and> has_label ''next'' under_header_stale 0"
proof -
  let ?r = "label_item ''next'' ex_args ex_env None None [0, 1, 2] 1 [2]
              (False, False, under_header_stale)"
  have h1: "startswith_star (content (tasks under_header_stale ! 0))" by code_simp
  have h2: "\<not> isl ?r" by code_simp
  have h3: "has_label ''next'' (snd (snd (projr ?r))) 2" by code_simp
  have h4: "has_label ''next'' (snd (snd (projr ?r))) 0" by code_simp
  from h2 have "?r = Inr (fst (projr ?r), fst (snd (projr ?r)), snd (snd (projr ?r)))"
    by (cases ?r) simp_all
  from header_never_gains_label [OF h1 this] h4
  have "has_label ''next'' under_header_stale 0" by blast
  with h1 h2 h3 h4 show ?thesis by blast
qed

text \<open>
  C5 as the specification states it fails: after a pass over a header item with a
  parallel child and a grandchild, the grandchild, a descendant of the header, holds
  the label.
\<close>

theorem header_descendant_gets_label:
  "startswith_star (content (tasks under_header ! 0))
   \<and> map parent_id (tasks under_header) = [None, Some 1, Some 2]
   \<and> map i_id (tasks under_header) = [1, 2, 3]
   \<and> labels_after (autodoist_magic ex_args ex_env (Some ''next'') under_header)
       = [[], [], [''next'']]"
  by code_simp

section \<open>The absolute start date\<close>

text \<open>
  Where the gate works: when the option to hide future items is not set, and the
  labelling reaches the item (not completed, no header), a start date that lies ahead
  takes the label from the item and from its non-completed children.
\<close>

lemma start_date_gate_removes:
  assumes "i < length (tasks s)" and "\<forall>c\<in>set child_items. c < length (tasks s)"
    and "labels_ok s"
    and "\<not> is_completed (tasks s ! i)" and "\<not> startswith_star (content (tasks s ! i))"
    and "0 < recursion_limit e"
    and "hide_future a \<le> 0"
    and "find_str ''start='' (content (tasks s ! i)) = Some k"
    and "find_str ''start=due-'' (content (tasks s ! i)) = None"
    and "strptime e (start_token (content (tasks s ! i)) k) (dateformat a) = Some start_date"
    and "now e < start_date"
  shows "\<exists>f1 f2 s'. label_item l a e section_type project_type items i child_items
                 (first_found_section, first_found_project, s) = Inr (f1, f2, s')
            \<and> \<not> has_label l s' i \<and> (\<forall>c\<in>set child_items. \<not> has_label l s' c)"
proof -
  obtain item_type where
    t: "get_item_type (recursion_limit e) a (tasks s ! i) (map (\<lambda>j. tasks s ! j) items) = Inr item_type"
    using get_item_type_returns [OF assms(6)] by blast
  obtain f1 f2 s1 where r: "label_root l item_type section_type project_type i
      (first_found_section, first_found_project, s) = (f1, f2, s1)"
    by (cases "label_root l item_type section_type project_type i
      (first_found_section, first_found_project, s)") auto
  let ?s2 = "label_children l [item_type, section_type, project_type] i child_items s1"
  have k: "keeps l s ?s2"
    using keeps_trans [OF keeps_label_root [OF r] keeps_label_children] .
  then have fr: "same_frame s ?s2" and ok: "labels_ok ?s2" and len: "length (tasks ?s2) = length (tasks s)"
    using assms(3) by (auto simp: keeps_def same_frame_def)
  have c: "content (tasks ?s2 ! i) = content (tasks s ! i)" "due (tasks ?s2 ! i) = due (tasks s ! i)"
    using frame_fields [OF fr] by simp_all
  have hg: "hide_future_gate l a e i ?s2 = (False, ?s2)"
    using assms(7) by (simp add: hide_future_gate_def)
  have "(now e - start_date) div DAY < 0"
    using assms(11) by (simp add: DAY_def pos_imp_zdiv_neg_iff)
  then have sg: "start_date_gate l a e i child_items ?s2
           = (True, remove_from_children l child_items (remove_label i l ?s2))"
    using assms(8,9,10) c by (simp add: start_date_gate_def start_token_def Let_def)
  let ?s3 = "remove_from_children l child_items (remove_label i l ?s2)"
  have res: "label_item l a e section_type project_type items i child_items
                 (first_found_section, first_found_project, s) = Inr (f1, f2, ?s3)"
    using assms(4,5) t r hg sg by (simp add: label_item_def gates_def)
  have "\<not> has_label l (remove_label i l ?s2) i"
    using ok len assms(1) by (simp add: has_label_remove_ok)
  then have a: "\<not> has_label l ?s3 i"
    using remove_from_children_subset [of l child_items "remove_label i l ?s2" i]
    by (auto simp: has_label_def)
  have "\<forall>c\<in>set child_items. \<not> has_label l ?s3 c"
    using remove_from_children_clears [of "remove_label i l ?s2" child_items l] ok len assms(2)
    by simp
  with res a show ?thesis by blast
qed

lemma start_date_gate_removes_milk:
  "\<exists>f1 f2 s'. label_item ''next'' ex_args milk_env None None [0, 1] 0 [1]
                     (False, False, milk) = Inr (f1, f2, s')
          \<and> \<not> has_label ''next'' s' 0 \<and> \<not> has_label ''next'' s' 1"
proof -
  have h1: "0 < length (tasks milk)" by code_simp
  have h2: "\<forall>c\<in>set [1]. c < length (tasks milk)" by code_simp
  have h3: "labels_ok milk" by code_simp
  have h4: "\<not> is_completed (tasks milk ! 0)" by code_simp
  have h5: "\<not> startswith_star (content (tasks milk ! 0))" by code_simp
  have h6: "0 < recursion_limit milk_env" by code_simp
  have h7: "hide_future ex_args \<le> 0" by code_simp
  have h8: "find_str ''start='' (content (tasks milk ! 0)) = Some 9" by code_simp
  have h9: "find_str ''start=due-'' (content (tasks milk ! 0)) = None" by code_simp
  have h10: "strptime milk_env (start_token (content (tasks milk ! 0)) 9) (dateformat ex_args)
             = Some 66206592000000000" by code_simp
  have h11: "now milk_env < 66206592000000000" by code_simp
  show ?thesis
    using start_date_gate_removes [OF h1 h2 h3 h4 h5 h6 h7 h8 h9 h10 h11,
        where l = "''next''" and section_type = None and project_type = None
        and items = "[0, 1]" and first_found_section = False
        and first_found_project = False]
    by simp
qed

text \<open>
  C8. With the option to hide future items set to 7 days, the condition of the
  future-hiding gate reads \<^verbatim>\<open>item.data\<close>, which the items do not have; the handler
  continues with the next item, so the start-date gate is never reached. The item has
  no due date, its start date 2099-01-01 parses with the configured format and lies
  ahead of today, and after the pass the item and its non-completed child still hold
  the label.
\<close>

theorem start_date_gate_not_reached:
  "hide_future hide_args = 7
   \<and> due (tasks milk ! 0) = None
   \<and> find_str ''start='' (content (tasks milk ! 0)) = Some 9
   \<and> find_str ''start=due-'' (content (tasks milk ! 0)) = None
   \<and> start_token (content (tasks milk ! 0)) 9 = ''01-01-2099''
   \<and> strptime milk_env ''01-01-2099'' (dateformat hide_args) = Some 66206592000000000
   \<and> now milk_env < 66206592000000000
   \<and> map parent_id (tasks milk) = [None, Some 1]
   \<and> map is_completed (tasks milk) = [False, False]
   \<and> labels_after (Inr milk) = [[''next''], [''next'']]
   \<and> labels_after (autodoist_magic hide_args milk_env (Some ''next'') milk)
       = [[''next''], [''next'']]"
  by code_simp

section \<open>Regeneration\<close>

text \<open>
  C7. A recurring root item whose due date moved on, regeneration mode 1, a completed
  child and a completed grandchild. At the root the comparison with \<^verbatim>\<open>item.date_old\<close>
  raises and so does the handler, before anything is stored; at the child
  \<^verbatim>\<open>item['r_tag']\<close> raises (and \<^verbatim>\<open>item.update(is_completed)\<close> after it names a variable bound
  nowhere). Every handler passes: after the pass every task is as it was, so no
  watermark is stored and no descendant is flagged or reopened.
\<close>

theorem regeneration_changes_nothing:
  "regeneration regen_args = Some 1
   \<and> map_option is_recurring (due (tasks rolled_over ! 0)) = Some True
   \<and> map parent_id (tasks rolled_over) = [None, Some 1, Some 2]
   \<and> map is_completed (tasks rolled_over) = [False, True, True]
   \<and> tasks_after (autodoist_magic regen_args ex_env (Some ''next'') rolled_over)
       = tasks rolled_over"
  by code_simp

section \<open>The items without a section come first\<close>




section \<open>A second pass\<close>




end
